theory Spec2Isabelle
  imports Main "HOL-Library.Sublist"
begin

section \<open>Strings and paths\<close>

text \<open>
  Python strings are modelled as \<open>string\<close>: lists of characters with code points
  below 256. The string operations the program uses are written out: the substring
  test \<^verbatim>\<open>a in b\<close>, \<^verbatim>\<open>str.splitlines\<close>, \<^verbatim>\<open>str.lower\<close>, and \<^verbatim>\<open>os.path.join\<close>
  in its POSIX form.
\<close>

fun str_in :: "string \<Rightarrow> string \<Rightarrow> bool" where
  "str_in a [] = (a = [])"
| "str_in a (c # cs) = (prefix a (c # cs) \<or> str_in a cs)"

definition is_linebreak :: "char \<Rightarrow> bool" where
  "is_linebreak c = ((of_char c :: nat) \<in> {10, 11, 12, 13, 28, 29, 30, 133})"

text \<open>
  \<^verbatim>\<open>str.splitlines()\<close>: a line ends at a line boundary, \<^verbatim>\<open>\r\n\<close> counts as one
  boundary, and a final boundary does not open an empty last line. The first argument
  holds the characters of the current line, latest first.
\<close>

fun splitlines_from :: "string \<Rightarrow> string \<Rightarrow> string list" where
  "splitlines_from acc [] = (if acc = [] then [] else [rev acc])"
| "splitlines_from acc [c] =
     (if is_linebreak c then [rev acc] else [rev (c # acc)])"
| "splitlines_from acc (c # d # ds) =
     (if c = CHR 0x0D \<and> d = CHR 0x0A then rev acc # splitlines_from [] ds
      else if is_linebreak c then rev acc # splitlines_from [] (d # ds)
      else splitlines_from (c # acc) (d # ds))"

definition splitlines :: "string \<Rightarrow> string list" where
  "splitlines s = splitlines_from [] s"

definition lower_char :: "char \<Rightarrow> char" where
  "lower_char c =
     (let n = (of_char c :: nat)
      in if (65 \<le> n \<and> n \<le> 90) \<or> (192 \<le> n \<and> n \<le> 222 \<and> n \<noteq> 215)
         then char_of (n + 32) else c)"

definition lower :: "string \<Rightarrow> string" where
  "lower s = map lower_char s"

text \<open>
  \<^verbatim>\<open>posixpath.join(a, b)\<close>: an absolute second component replaces the first; otherwise
  the two are concatenated, with a separator unless the first is empty or ends in one.
\<close>

definition posix_join :: "string \<Rightarrow> string \<Rightarrow> string" where
  "posix_join a b =
     (if prefix ''/'' b then b
      else if a = [] \<or> suffix ''/'' a then a @ b
      else a @ ''/'' @ b)"


section \<open>The operating system as the program sees it\<close>

text \<open>
  What a call did is recorded in a trace, so that "is not probed" and "performs no
  write" are statements about the trace. Diagnostic logging is not modelled.
\<close>

datatype syscall =
    IsMount string
  | IsDir string
  | CheckOutput "string list"
  | MakeDirs string
  | OpenW string
  | WriteClose string string
  | Remove string
  | SetEnv string string

datatype proc_result = Completed string | CalledProcessError int

datatype oserror = OSError

text \<open>
  The world holds what the interpreter and the operating system answer. The fields up
  to \<open>remove_fails\<close> are never changed by the program: the platform name, the
  platform's \<^verbatim>\<open>os.path.join\<close> on two components, the value of
  \<^verbatim>\<open>os.path.expanduser('~')\<close>, the mount points, the outcome of each command run by
  \<^verbatim>\<open>subprocess.check_output\<close>, and the paths at which \<^verbatim>\<open>os.makedirs\<close>,
  \<^verbatim>\<open>open(_, 'w')\<close>, writing and closing, and \<^verbatim>\<open>os.remove\<close> raise \<^verbatim>\<open>OSError\<close>.
  The remaining fields are the mutable state: directories, regular files with their
  contents, the process environment and the trace.

  An operation fails in the way the program handles. A command run by
  \<^verbatim>\<open>check_output\<close> completes with its output or exits with a nonzero status, which is
  \<^verbatim>\<open>CalledProcessError\<close>; the file operations raise \<^verbatim>\<open>OSError\<close>, which Python 3 also
  calls \<^verbatim>\<open>IOError\<close>, at the paths the world names, whatever the state. A command that
  cannot be launched at all is outside the model.
\<close>

record world =
  system :: string
  path_join :: "string \<Rightarrow> string \<Rightarrow> string"
  home :: string
  mounts :: "string set"
  commands :: "string list \<Rightarrow> proc_result"
  mkdir_fails :: "string set"
  open_fails :: "string set"
  write_fails :: "string set"
  remove_fails :: "string set"
  dirs :: "string set"
  files :: "string \<rightharpoonup> string"
  environ :: "string \<rightharpoonup> string"
  trace :: "syscall list"

definition log :: "syscall \<Rightarrow> world \<Rightarrow> world" where
  "log c w = w\<lparr>trace := trace w @ [c]\<rparr>"

definition os_path_ismount :: "world \<Rightarrow> string \<Rightarrow> bool \<times> world" where
  "os_path_ismount w p = (p \<in> mounts w, log (IsMount p) w)"

text \<open>The empty path names nothing: it is no directory and cannot be created.\<close>

definition os_path_isdir :: "world \<Rightarrow> string \<Rightarrow> bool \<times> world" where
  "os_path_isdir w p = (p \<noteq> [] \<and> p \<in> dirs w, log (IsDir p) w)"

definition check_output :: "world \<Rightarrow> string list \<Rightarrow> proc_result \<times> world" where
  "check_output w argv = (commands w argv, log (CheckOutput argv) w)"

text \<open>
  \<^verbatim>\<open>os.makedirs(p, exist_ok=True)\<close>. Of the directories a successful call creates, the
  model tracks \<open>p\<close> itself, the only one the program asks about afterwards.
\<close>

definition os_makedirs :: "world \<Rightarrow> string \<Rightarrow> (oserror + unit) \<times> world" where
  "os_makedirs w p =
     (let w1 = log (MakeDirs p) w
      in if p = [] \<or> p \<in> mkdir_fails w then (Inl OSError, w1)
         else (Inr (), w1\<lparr>dirs := insert p (dirs w1)\<rparr>))"

text \<open>\<^verbatim>\<open>open(p, 'w')\<close> creates the file or truncates it.\<close>

definition open_w :: "world \<Rightarrow> string \<Rightarrow> (oserror + unit) \<times> world" where
  "open_w w p =
     (let w1 = log (OpenW p) w
      in if p \<in> open_fails w then (Inl OSError, w1)
         else (Inr (), w1\<lparr>files := (files w1)(p \<mapsto> [])\<rparr>))"

text \<open>
  \<^verbatim>\<open>f.write(s)\<close> followed by the close at the end of the \<^verbatim>\<open>with\<close> block; when it
  fails (a full disk) the file stays as \<open>open_w\<close> left it.
\<close>

definition write_close :: "world \<Rightarrow> string \<Rightarrow> string \<Rightarrow> (oserror + unit) \<times> world" where
  "write_close w p s =
     (let w1 = log (WriteClose p s) w
      in if p \<in> write_fails w then (Inl OSError, w1)
         else (Inr (), w1\<lparr>files := (files w1)(p \<mapsto> s)\<rparr>))"

definition os_remove :: "world \<Rightarrow> string \<Rightarrow> (oserror + unit) \<times> world" where
  "os_remove w p =
     (let w1 = log (Remove p) w
      in if p \<in> remove_fails w \<or> files w p = None then (Inl OSError, w1)
         else (Inr (), w1\<lparr>files := (files w1)(p := None)\<rparr>))"

definition os_environ_set :: "world \<Rightarrow> string \<Rightarrow> string \<Rightarrow> world" where
  "os_environ_set w k v = log (SetEnv k v) (w\<lparr>environ := (environ w)(k \<mapsto> v)\<rparr>)"

section \<open>The class SetDiskCache\<close>

record SetDiskCache =
  preferred_volumes :: "string list"
  cache_dir :: string
  cache_path :: "string option"

definition network_filesystems :: "string list" where
  "network_filesystems = [''smbfs'', ''nfs'', ''afp'', ''cifs'', ''webdav'']"

text \<open>
  The loop of \<^verbatim>\<open>_is_network_drive\<close> over the lines of the mount table: the first line
  that contains the volume path decides.
\<close>

fun mount_lines_decide :: "string \<Rightarrow> string list \<Rightarrow> bool" where
  "mount_lines_decide volume_path [] = False"
| "mount_lines_decide volume_path (line # rest) =
     (if str_in volume_path line
      then list_ex (\<lambda>fs_type. str_in fs_type line) network_filesystems
      else mount_lines_decide volume_path rest)"

definition is_network_drive :: "world \<Rightarrow> string \<Rightarrow> bool \<times> world" where
  "is_network_drive w volume_path =
     (let current_os = system w
      in if current_os = ''Darwin'' \<or> current_os = ''Linux'' then
           (case check_output w [''mount''] of
              (Completed mount_output, w1) \<Rightarrow>
                (mount_lines_decide volume_path (splitlines mount_output), w1)
            | (CalledProcessError e, w1) \<Rightarrow> (False, w1))
         else if current_os = ''Windows'' then
           (case check_output w [''net'', ''use''] of
              (Completed output, w1) \<Rightarrow> (str_in (lower volume_path) (lower output), w1)
            | (CalledProcessError e, w1) \<Rightarrow> (False, w1))
         else (False, w))"

definition ensure_directory :: "world \<Rightarrow> string \<Rightarrow> bool \<times> world" where
  "ensure_directory w path =
     (case os_path_isdir w path of
        (True, w1) \<Rightarrow> (True, w1)
      | (False, w1) \<Rightarrow>
          (case os_makedirs w1 path of
             (Inr u, w2) \<Rightarrow> (True, w2)
           | (Inl e, w2) \<Rightarrow> (False, w2)))"

definition is_writable :: "world \<Rightarrow> string \<Rightarrow> bool \<times> world" where
  "is_writable w path =
     (let test_file = path_join w path ''.write_test''
      in case open_w w test_file of
           (Inl e, w1) \<Rightarrow> (False, w1)
         | (Inr f, w1) \<Rightarrow>
             (case write_close w1 test_file ''test'' of
                (Inl e, w2) \<Rightarrow> (False, w2)
              | (Inr u, w2) \<Rightarrow>
                  (case os_remove w2 test_file of
                     (Inl e, w3) \<Rightarrow> (False, w3)
                   | (Inr u, w3) \<Rightarrow> (True, w3))))"

text \<open>
  \<^verbatim>\<open>self._ensure_directory(p) and self._is_writable(p)\<close>: the second test runs only
  when the first succeeded.
\<close>

definition ensure_and_writable :: "world \<Rightarrow> string \<Rightarrow> bool \<times> world" where
  "ensure_and_writable w p =
     (case ensure_directory w p of
        (True, w1) \<Rightarrow> is_writable w1 p
      | (False, w1) \<Rightarrow> (False, w1))"

text \<open>The tail shared by the three finders: the home-directory fallback.\<close>

definition home_fallback :: "world \<Rightarrow> string \<Rightarrow> string option \<times> world" where
  "home_fallback w cache_dir_v =
     (let home_cache_path = path_join w (home w) cache_dir_v
      in case ensure_and_writable w home_cache_path of
           (True, w1) \<Rightarrow> (Some home_cache_path, w1)
         | (False, w1) \<Rightarrow> (None, w1))"

text \<open>
  The finders take \<^verbatim>\<open>self.cache_dir\<close> and the volumes still to be visited as
  arguments; \<open>continue\<close> is the recursive call, leaving the loop is the fallback.
\<close>

fun find_suitable_cache_path_macos :: "world \<Rightarrow> string \<Rightarrow> string list \<Rightarrow> string option \<times> world" where
  "find_suitable_cache_path_macos w cd [] = home_fallback w cd"
| "find_suitable_cache_path_macos w cd (volume # rest) =
     (let volume_path = path_join w ''/Volumes'' volume
      in case os_path_ismount w volume_path of
           (False, w1) \<Rightarrow> find_suitable_cache_path_macos w1 cd rest
         | (True, w1) \<Rightarrow>
             (case is_network_drive w1 volume_path of
                (True, w2) \<Rightarrow> find_suitable_cache_path_macos w2 cd rest
              | (False, w2) \<Rightarrow>
                  (let cache_path_v = path_join w volume_path cd
                   in case ensure_and_writable w2 cache_path_v of
                        (True, w3) \<Rightarrow> (Some cache_path_v, w3)
                      | (False, w3) \<Rightarrow> find_suitable_cache_path_macos w3 cd rest)))"

fun find_suitable_cache_path_linux :: "world \<Rightarrow> string \<Rightarrow> string list \<Rightarrow> string option \<times> world" where
  "find_suitable_cache_path_linux w cd [] = home_fallback w cd"
| "find_suitable_cache_path_linux w cd (volume # rest) =
     (let volume_path = path_join w ''/mnt'' volume
      in case os_path_ismount w volume_path of
           (False, w1) \<Rightarrow> find_suitable_cache_path_linux w1 cd rest
         | (True, w1) \<Rightarrow>
             (case is_network_drive w1 volume_path of
                (True, w2) \<Rightarrow> find_suitable_cache_path_linux w2 cd rest
              | (False, w2) \<Rightarrow>
                  (let cache_path_v = path_join w volume_path cd
                   in case ensure_and_writable w2 cache_path_v of
                        (True, w3) \<Rightarrow> (Some cache_path_v, w3)
                      | (False, w3) \<Rightarrow> find_suitable_cache_path_linux w3 cd rest)))"

fun find_suitable_cache_path_windows :: "world \<Rightarrow> string \<Rightarrow> string list \<Rightarrow> string option \<times> world" where
  "find_suitable_cache_path_windows w cd [] = home_fallback w cd"
| "find_suitable_cache_path_windows w cd (volume # rest) =
     (let volume_path = volume @ [CHR '':'', CHR 0x5C]
      in case os_path_isdir w volume_path of
           (False, w1) \<Rightarrow> find_suitable_cache_path_windows w1 cd rest
         | (True, w1) \<Rightarrow>
             (let cache_path_v = path_join w volume_path cd
              in case ensure_and_writable w1 cache_path_v of
                   (True, w2) \<Rightarrow> (Some cache_path_v, w2)
                 | (False, w2) \<Rightarrow> find_suitable_cache_path_windows w2 cd rest))"

text \<open>
  \<^verbatim>\<open>if self.cache_path:\<close> is Python truthiness: neither \<^verbatim>\<open>None\<close> nor empty. In the
  branch it guards, \<open>the\<close> reads the path that is there.
\<close>

definition truthy :: "string option \<Rightarrow> bool" where
  "truthy v = (case v of None \<Rightarrow> False | Some s \<Rightarrow> s \<noteq> [])"

definition set_cache_location_macos :: "SetDiskCache \<Rightarrow> world \<Rightarrow> SetDiskCache \<times> world" where
  "set_cache_location_macos self w =
     (case find_suitable_cache_path_macos w (cache_dir self) (preferred_volumes self) of
        (r, w1) \<Rightarrow>
          (let self1 = self\<lparr>cache_path := r\<rparr>
           in if truthy (cache_path self1)
              then (self1, os_environ_set
                      (os_environ_set w1 ''NUKE_TEMP_DIR'' (the (cache_path self1)))
                      ''NUKE_DISK_CACHE'' (the (cache_path self1)))
              else (self1, w1)))"

definition set_cache_location_linux :: "SetDiskCache \<Rightarrow> world \<Rightarrow> SetDiskCache \<times> world" where
  "set_cache_location_linux self w =
     (case find_suitable_cache_path_linux w (cache_dir self) (preferred_volumes self) of
        (r, w1) \<Rightarrow>
          (let self1 = self\<lparr>cache_path := r\<rparr>
           in if truthy (cache_path self1)
              then (self1, os_environ_set
                      (os_environ_set w1 ''NUKE_TEMP_DIR'' (the (cache_path self1)))
                      ''NUKE_DISK_CACHE'' (the (cache_path self1)))
              else (self1, w1)))"

definition set_cache_location_windows :: "SetDiskCache \<Rightarrow> world \<Rightarrow> SetDiskCache \<times> world" where
  "set_cache_location_windows self w =
     (case find_suitable_cache_path_windows w (cache_dir self) (preferred_volumes self) of
        (r, w1) \<Rightarrow>
          (let self1 = self\<lparr>cache_path := r\<rparr>
           in if truthy (cache_path self1)
              then (self1, os_environ_set
                      (os_environ_set w1 ''NUKE_TEMP_DIR'' (the (cache_path self1)))
                      ''NUKE_DISK_CACHE'' (the (cache_path self1)))
              else (self1, w1)))"

definition handle_os_specific_cache_location :: "SetDiskCache \<Rightarrow> world \<Rightarrow> SetDiskCache \<times> world" where
  "handle_os_specific_cache_location self w =
     (let current_os = system w
      in if current_os = ''Darwin'' then set_cache_location_macos self w
         else if current_os = ''Linux'' then set_cache_location_linux self w
         else if current_os = ''Windows'' then set_cache_location_windows self w
         else (self, w))"

definition init :: "world \<Rightarrow> string list \<Rightarrow> string \<Rightarrow> SetDiskCache \<times> world" where
  "init w pv cd =
     handle_os_specific_cache_location
       \<lparr>preferred_volumes = pv, cache_dir = cd, cache_path = None\<rparr> w"

section \<open>The selection procedure of the specification\<close>

text \<open>
  The specification describes one procedure \<open>select\<close>, parameterised by a platform
  policy. It is written here from the specification's steps (a) to (g) and step 2, over
  the same operating-system model, to be compared with the three finders of the code.
\<close>

record policy =
  mountRootFor :: "world \<Rightarrow> string \<Rightarrow> string"
  isMounted :: "world \<Rightarrow> string \<Rightarrow> bool \<times> world"
  isNetworkMounted :: "world \<Rightarrow> string \<Rightarrow> bool \<times> world"

fun select :: "policy \<Rightarrow> world \<Rightarrow> string \<Rightarrow> string list \<Rightarrow> string option \<times> world" where
  "select pol w cd [] = home_fallback w cd"
| "select pol w cd (name # rest) =
     (let mountRoot = mountRootFor pol w name
      in case isMounted pol w mountRoot of
           (False, w1) \<Rightarrow> select pol w1 cd rest
         | (True, w1) \<Rightarrow>
             (case isNetworkMounted pol w1 mountRoot of
                (True, w2) \<Rightarrow> select pol w2 cd rest
              | (False, w2) \<Rightarrow>
                  (let candidatePath = path_join w mountRoot cd
                   in case ensure_and_writable w2 candidatePath of
                        (True, w3) \<Rightarrow> (Some candidatePath, w3)
                      | (False, w3) \<Rightarrow> select pol w3 cd rest)))"

definition macos_policy :: policy where
  "macos_policy =
     \<lparr>mountRootFor = (\<lambda>w name. path_join w ''/Volumes'' name),
      isMounted = os_path_ismount, isNetworkMounted = is_network_drive\<rparr>"

definition linux_policy :: policy where
  "linux_policy =
     \<lparr>mountRootFor = (\<lambda>w name. path_join w ''/mnt'' name),
      isMounted = os_path_ismount, isNetworkMounted = is_network_drive\<rparr>"

text \<open>
  The Windows policy of the specification asks the network-use mappings; the policy the
  Windows finder of the code follows asks nothing.
\<close>

definition windows_policy :: policy where
  "windows_policy =
     \<lparr>mountRootFor = (\<lambda>w name. name @ [CHR '':'', CHR 0x5C]),
      isMounted = os_path_isdir, isNetworkMounted = is_network_drive\<rparr>"

definition windows_code_policy :: policy where
  "windows_code_policy =
     \<lparr>mountRootFor = (\<lambda>w name. name @ [CHR '':'', CHR 0x5C]),
      isMounted = os_path_isdir, isNetworkMounted = (\<lambda>w p. (False, w))\<rparr>"

text \<open>
  A candidate is suitable in a world when it passes the three tests there: mounted, not
  network-mounted, and writable after its cache directory has been ensured.
\<close>

definition examined :: "policy \<Rightarrow> world \<Rightarrow> string \<Rightarrow> bool" where
  "examined pol w name =
     (let mountRoot = mountRootFor pol w name
      in fst (isMounted pol w mountRoot) \<and> \<not> fst (isNetworkMounted pol w mountRoot))"

definition suitable :: "policy \<Rightarrow> world \<Rightarrow> string \<Rightarrow> string \<Rightarrow> bool" where
  "suitable pol w cd name =
     (let mountRoot = mountRootFor pol w name
      in fst (isMounted pol w mountRoot) \<and> \<not> fst (isNetworkMounted pol w mountRoot)
         \<and> fst (ensure_and_writable w (path_join w mountRoot cd)))"

definition chosen :: "policy \<Rightarrow> world \<Rightarrow> string \<Rightarrow> string list \<Rightarrow> string option" where
  "chosen pol w cd names =
     (case find (suitable pol w cd) names of
        Some name \<Rightarrow> Some (path_join w (mountRootFor pol w name) cd)
      | None \<Rightarrow>
          (if fst (ensure_and_writable w (path_join w (home w) cd))
           then Some (path_join w (home w) cd) else None))"

text \<open>
  How one world can follow another during a run: the platform's answers are the same,
  no directory has gone, and every new directory is one that \<open>os_makedirs\<close> can
  create.
\<close>

definition same_platform :: "world \<Rightarrow> world \<Rightarrow> bool" where
  "same_platform w a =
     (system a = system w \<and> path_join a = path_join w \<and> home a = home w
      \<and> mounts a = mounts w \<and> commands a = commands w
      \<and> mkdir_fails a = mkdir_fails w \<and> open_fails a = open_fails w
      \<and> write_fails a = write_fails w \<and> remove_fails a = remove_fails w)"

definition evolves :: "world \<Rightarrow> world \<Rightarrow> bool" where
  "evolves w a =
     (same_platform w a \<and> dirs w \<subseteq> dirs a
      \<and> dirs a - dirs w \<subseteq> {p. p \<noteq> [] \<and> p \<notin> mkdir_fails w})"

definition quiet :: "world \<Rightarrow> world \<Rightarrow> bool" where
  "quiet a b = (same_platform a b \<and> dirs b = dirs a \<and> files b = files a \<and> environ b = environ a)"

definition is_SetEnv :: "syscall \<Rightarrow> bool" where
  "is_SetEnv c = (case c of SetEnv k v \<Rightarrow> True | _ \<Rightarrow> False)"

text \<open>The calls a run added to the trace.\<close>

definition new_calls :: "world \<Rightarrow> world \<Rightarrow> syscall list" where
  "new_calls w a = drop (length (trace w)) (trace a)"

text \<open>
  A step is calm when it leaves the environment alone: the trace is extended, by calls
  other than \<open>SetEnv\<close>, and the environment is the same.
\<close>

definition calm :: "world \<Rightarrow> world \<Rightarrow> bool" where
  "calm a b =
     (environ b = environ a \<and> prefix (trace a) (trace b)
      \<and> filter is_SetEnv (new_calls a b) = [])"

text \<open>
  A policy is tame when asking it changes nothing but the trace, calmly, and its mount
  roots depend on the platform only. It is stable from a world on a list of names when,
  along every run from there, its answers for these names stay the same.
\<close>

definition tame :: "policy \<Rightarrow> bool" where
  "tame pol =
     ((\<forall>a p. quiet a (snd (isMounted pol a p)) \<and> quiet a (snd (isNetworkMounted pol a p)))
      \<and> (\<forall>a p. calm a (snd (isMounted pol a p)) \<and> calm a (snd (isNetworkMounted pol a p)))
      \<and> (\<forall>a b name. same_platform a b \<longrightarrow> mountRootFor pol b name = mountRootFor pol a name))"

definition stable :: "policy \<Rightarrow> world \<Rightarrow> string list \<Rightarrow> bool" where
  "stable pol w names =
     (\<forall>a name. evolves w a \<longrightarrow> name \<in> set names \<longrightarrow>
        fst (isMounted pol a (mountRootFor pol w name))
          = fst (isMounted pol w (mountRootFor pol w name))
        \<and> fst (isNetworkMounted pol a (mountRootFor pol w name))
            = fst (isNetworkMounted pol w (mountRootFor pol w name)))"

text \<open>
  The premise used for Windows: each preferred drive root is a directory already, or
  cannot be made one by \<open>os_makedirs\<close>.
\<close>

definition drive_roots_fixed :: "world \<Rightarrow> string list \<Rightarrow> bool" where
  "drive_roots_fixed w names =
     list_all (\<lambda>name. name @ [CHR '':'', CHR 0x5C] \<in> dirs w
                      \<or> name @ [CHR '':'', CHR 0x5C] \<in> mkdir_fails w) names"

text \<open>
  The three setters differ in the finder they call and share the rest: \<open>adopt\<close> is that
  rest, applied to what the finder returned. \<open>code_policy\<close> names the policy each
  platform's finder follows.
\<close>

definition adopt :: "SetDiskCache \<Rightarrow> string option \<times> world \<Rightarrow> SetDiskCache \<times> world" where
  "adopt self found =
     (case found of
        (r, w1) \<Rightarrow>
          (let self1 = self\<lparr>cache_path := r\<rparr>
           in if truthy (cache_path self1)
              then (self1, os_environ_set
                      (os_environ_set w1 ''NUKE_TEMP_DIR'' (the (cache_path self1)))
                      ''NUKE_DISK_CACHE'' (the (cache_path self1)))
              else (self1, w1)))"

definition code_policy :: "string \<Rightarrow> policy option" where
  "code_policy os =
     (if os = ''Darwin'' then Some macos_policy
      else if os = ''Linux'' then Some linux_policy
      else if os = ''Windows'' then Some windows_code_policy
      else None)"

section \<open>Example worlds\<close>

text \<open>
  A macOS machine: the volume RAID is a local disk, Projects is an SMB share, FastSSD is
  not mounted; nothing fails.
\<close>

definition mac_mount_table :: string where
  "mac_mount_table =
     ''/dev/disk1s1 on / (apfs, local)'' @ [CHR 0x0A] @
     ''//u@srv/Projects on /Volumes/Projects (smbfs, nodev)'' @ [CHR 0x0A] @
     ''/dev/disk2s1 on /Volumes/RAID (hfs, local)'' @ [CHR 0x0A]"

definition mac_world :: world where
  "mac_world =
     \<lparr>system = ''Darwin'', path_join = posix_join, home = ''/Users/artist'',
      mounts = {''/'', ''/Volumes/Projects'', ''/Volumes/RAID''},
      commands = (\<lambda>argv. if argv = [''mount''] then Completed mac_mount_table
                          else CalledProcessError 127),
      mkdir_fails = {}, open_fails = {}, write_fails = {}, remove_fails = {},
      dirs = {''/'', ''/Volumes/Projects'', ''/Volumes/RAID'', ''/Users/artist''},
      files = Map.empty, environ = Map.empty, trace = []\<rparr>"

text \<open>The same machine with a \<^verbatim>\<open>mount\<close> command that exits with status 1.\<close>

definition mac_world_mount_broken :: world where
  "mac_world_mount_broken = mac_world\<lparr>commands := (\<lambda>argv. CalledProcessError 1)\<rparr>"

text \<open>The same machine with a full disk: files can be created but not written.\<close>

definition mac_world_disk_full :: world where
  "mac_world_disk_full = mac_world\<lparr>write_fails := UNIV\<rparr>"

text \<open>The same machine where nothing can be created.\<close>

definition mac_world_read_only :: world where
  "mac_world_read_only = mac_world\<lparr>mkdir_fails := UNIV, open_fails := UNIV\<rparr>"

text \<open>
  A Windows machine: drive Z is accessible and listed by \<^verbatim>\<open>net use\<close>. Concatenation is
  what \<^verbatim>\<open>ntpath.join\<close> does with a first component that ends in a separator and a
  relative second one without a drive, the only arguments this world is asked about.
\<close>

definition win_net_use :: string where
  "win_net_use = ''OK Z:'' @ [CHR 0x5C] @ '' '' @ [CHR 0x5C, CHR 0x5C] @ ''srv'' @ [CHR 0x5C] @ ''share''"

definition win_world :: world where
  "win_world =
     \<lparr>system = ''Windows'', path_join = (\<lambda>a b. a @ b),
      home = ''C:'' @ [CHR 0x5C] @ ''Users'' @ [CHR 0x5C] @ ''artist'' @ [CHR 0x5C],
      mounts = {},
      commands = (\<lambda>argv. if argv = [''net'', ''use''] then Completed win_net_use
                          else CalledProcessError 1),
      mkdir_fails = {}, open_fails = {}, write_fails = {}, remove_fails = {},
      dirs = {''Z:'' @ [CHR 0x5C]},
      files = Map.empty, environ = Map.empty, trace = []\<rparr>"

text \<open>
  The macOS machine with a file of the user's, named like the probe's marker, in the
  cache directory of RAID.
\<close>

definition mac_world_user_file :: world where
  "mac_world_user_file =
     mac_world\<lparr>dirs := insert ''/Volumes/RAID/AppCache'' (dirs mac_world),
               files := [''/Volumes/RAID/AppCache/.write_test'' \<mapsto> ''render notes'']\<rparr>"

text \<open>
  A Linux machine with a disk mounted under \<^verbatim>\<open>/mnt/data\<close>, whose \<^verbatim>\<open>mount\<close> command exits
  with status 32.
\<close>

definition linux_world :: world where
  "linux_world =
     mac_world\<lparr>system := ''Linux'', home := ''/home/artist'',
               mounts := {''/'', ''/mnt/data''},
               commands := (\<lambda>argv. CalledProcessError 32),
               dirs := {''/'', ''/mnt/data'', ''/home/artist''}\<rparr>"

text \<open>A machine of another kind.\<close>

definition bsd_world :: world where
  "bsd_world = mac_world\<lparr>system := ''FreeBSD''\<rparr>"

section \<open>Facts about the operations\<close>

lemmas prim_defs = os_path_ismount_def os_path_isdir_def check_output_def os_makedirs_def
  open_w_def write_close_def os_remove_def os_environ_set_def log_def Let_def

lemmas prim_splits = bool.splits prod.splits sum.splits proc_result.splits

lemma same_platform_refl [simp]: "same_platform w w"
  by (simp add: same_platform_def)

lemma same_platform_trans: "same_platform w a \<Longrightarrow> same_platform a b \<Longrightarrow> same_platform w b"
  by (simp add: same_platform_def)

lemma evolves_refl [simp]: "evolves w w"
  by (auto simp: evolves_def)

lemma evolves_trans: "evolves w a \<Longrightarrow> evolves a b \<Longrightarrow> evolves w b"
  unfolding evolves_def same_platform_def by auto

lemma evolves_same_platform: "evolves w a \<Longrightarrow> same_platform w a"
  by (simp add: evolves_def)

lemma quiet_evolves: "quiet a b \<Longrightarrow> evolves a b"
  by (auto simp: quiet_def evolves_def)

lemma quiet_trans: "quiet a b \<Longrightarrow> quiet b c \<Longrightarrow> quiet a c"
  by (simp add: quiet_def same_platform_def)

lemma quiet_log: "quiet w (log c w)"
  by (simp add: quiet_def log_def same_platform_def)

lemma ensure_directory_fst:
  "fst (ensure_directory w p) = (p \<noteq> [] \<and> (p \<in> dirs w \<or> p \<notin> mkdir_fails w))"
  by (auto simp: ensure_directory_def prim_defs split: prim_splits)

lemma ensure_directory_dirs:
  "dirs (snd (ensure_directory w p)) =
     (if fst (ensure_directory w p) then insert p (dirs w) else dirs w)"
  by (auto simp: ensure_directory_def prim_defs split: prim_splits)

lemma ensure_directory_same_platform: "same_platform w (snd (ensure_directory w p))"
  by (auto simp: ensure_directory_def prim_defs same_platform_def split: prim_splits)

lemma ensure_directory_evolves: "evolves w (snd (ensure_directory w p))"
  by (auto simp: evolves_def ensure_directory_same_platform ensure_directory_dirs
        ensure_directory_fst)

lemma is_writable_fst:
  "fst (is_writable w p) =
     (path_join w p ''.write_test'' \<notin> open_fails w
      \<and> path_join w p ''.write_test'' \<notin> write_fails w
      \<and> path_join w p ''.write_test'' \<notin> remove_fails w)"
  by (auto simp: is_writable_def prim_defs split: prim_splits)

lemma is_writable_dirs: "dirs (snd (is_writable w p)) = dirs w"
  by (auto simp: is_writable_def prim_defs split: prim_splits)

lemma is_writable_same_platform: "same_platform w (snd (is_writable w p))"
  by (auto simp: is_writable_def prim_defs same_platform_def split: prim_splits)

lemma is_writable_evolves: "evolves w (snd (is_writable w p))"
  by (auto simp: evolves_def is_writable_same_platform is_writable_dirs)

lemma eaw_fst:
  "fst (ensure_and_writable w p) = (fst (ensure_directory w p) \<and> fst (is_writable w p))"
  using ensure_directory_same_platform [of w p]
  by (cases "ensure_directory w p")
     (auto simp: ensure_and_writable_def is_writable_fst same_platform_def split: bool.splits)

lemma eaw_dirs:
  "dirs (snd (ensure_and_writable w p)) = dirs (snd (ensure_directory w p))"
  by (cases "ensure_directory w p")
     (auto simp: ensure_and_writable_def is_writable_dirs split: bool.splits)

lemma eaw_evolves: "evolves w (snd (ensure_and_writable w p))"
  using ensure_directory_evolves [of w p]
  by (cases "ensure_directory w p")
     (auto simp: ensure_and_writable_def split: bool.splits
           intro: evolves_trans is_writable_evolves)

lemma eaw_fst_evolves:
  "evolves w a \<Longrightarrow> fst (ensure_and_writable a p) = fst (ensure_and_writable w p)"
  unfolding eaw_fst ensure_directory_fst is_writable_fst evolves_def same_platform_def
  by auto

lemma home_fallback_fst:
  "fst (home_fallback w cd) =
     (if fst (ensure_and_writable w (path_join w (home w) cd))
      then Some (path_join w (home w) cd) else None)"
  by (cases "ensure_and_writable w (path_join w (home w) cd)")
     (auto simp: home_fallback_def Let_def split: bool.splits)

lemma home_fallback_snd:
  "snd (home_fallback w cd) = snd (ensure_and_writable w (path_join w (home w) cd))"
  by (cases "ensure_and_writable w (path_join w (home w) cd)")
     (auto simp: home_fallback_def Let_def split: bool.splits)

lemma home_fallback_evolves: "evolves w (snd (home_fallback w cd))"
  by (simp add: home_fallback_snd eaw_evolves)

lemma home_fallback_fst_evolves:
  assumes "evolves w a"
  shows "fst (home_fallback a cd) = fst (home_fallback w cd)"
proof -
  have pj: "path_join a (home a) cd = path_join w (home w) cd"
    using assms by (simp add: evolves_def same_platform_def)
  have "fst (ensure_and_writable a (path_join w (home w) cd))
        = fst (ensure_and_writable w (path_join w (home w) cd))"
    using assms by (rule eaw_fst_evolves)
  then show ?thesis
    unfolding home_fallback_fst pj by (rule arg_cong)
qed

section \<open>Other operating systems\<close>

text \<open>
  C10. On an operating system other than Darwin, Linux and Windows, constructing the
  selector leaves \<open>cache_path\<close> at \<open>None\<close> and returns the world as it was: no
  environment variable is set, nothing in the file system changes, and the trace gains no
  call, so no candidate is probed.
\<close>

theorem unsupported_os_skips:
  assumes "system w \<noteq> ''Darwin''" and "system w \<noteq> ''Linux''" and "system w \<noteq> ''Windows''"
  shows "init w pv cd = (\<lparr>preferred_volumes = pv, cache_dir = cd, cache_path = None\<rparr>, w)"
  using assms by (simp add: init_def handle_os_specific_cache_location_def Let_def)

theorem unsupported_os_skips_witness:
  "system bsd_world \<noteq> ''Darwin'' \<and> system bsd_world \<noteq> ''Linux''
   \<and> system bsd_world \<noteq> ''Windows''
   \<and> init bsd_world [''FastSSD'', ''RAID''] ''AppCache''
       = (\<lparr>preferred_volumes = [''FastSSD'', ''RAID''], cache_dir = ''AppCache'',
           cache_path = None\<rparr>, bsd_world)"
proof -
  have s: "system bsd_world = ''FreeBSD''"
    by (simp add: bsd_world_def)
  have h: "system bsd_world \<noteq> ''Darwin''" "system bsd_world \<noteq> ''Linux''"
    "system bsd_world \<noteq> ''Windows''"
    by (simp_all add: s)
  from h unsupported_os_skips [OF h] show ?thesis by simp
qed

section \<open>The network-mount check\<close>

lemma quiet_refl [simp]: "quiet w w"
  by (simp add: quiet_def)

text \<open>The substring test is the library's notion of a contiguous sublist.\<close>

lemma str_in_sublist: "str_in a b = sublist a b"
  by (induction b) (auto simp: sublist_Cons_right)

lemma mount_lines_decide_find:
  "mount_lines_decide vp ls =
     (case find (sublist vp) ls of
        None \<Rightarrow> False
      | Some line \<Rightarrow> list_ex (\<lambda>fs. sublist fs line) [''smbfs'', ''nfs'', ''afp'', ''cifs'', ''webdav''])"
  by (induction ls) (simp_all add: str_in_sublist network_filesystems_def)

lemma is_network_drive_quiet: "quiet w (snd (is_network_drive w p))"
  by (auto simp: is_network_drive_def check_output_def Let_def quiet_log split: proc_result.splits)

lemma is_network_drive_fst_same:
  "same_platform w a \<Longrightarrow> fst (is_network_drive a p) = fst (is_network_drive w p)"
  by (auto simp: is_network_drive_def check_output_def Let_def same_platform_def split: proc_result.splits)

text \<open>
  C5. On macOS and Linux, when the \<^verbatim>\<open>mount\<close> command succeeds, the network-mount check
  is decided by the first line of its output that contains the volume path as a
  substring (characters compared as they are): the answer is whether that line also
  contains one of \<^verbatim>\<open>smbfs\<close>, \<^verbatim>\<open>nfs\<close>, \<^verbatim>\<open>afp\<close>, \<^verbatim>\<open>cifs\<close>, \<^verbatim>\<open>webdav\<close> as a substring; when no
  line contains the volume path the answer is false.
\<close>

theorem network_check_first_matching_line:
  assumes "system w = ''Darwin'' \<or> system w = ''Linux''"
    and "commands w [''mount''] = Completed mount_output"
  shows "fst (is_network_drive w volume_path) =
     (case find (sublist volume_path) (splitlines mount_output) of
        None \<Rightarrow> False
      | Some line \<Rightarrow>
          list_ex (\<lambda>fs. sublist fs line) [''smbfs'', ''nfs'', ''afp'', ''cifs'', ''webdav''])"
  using assms
  by (auto simp: is_network_drive_def check_output_def Let_def mount_lines_decide_find)

theorem network_check_first_matching_line_witness:
  "(system mac_world = ''Darwin'' \<or> system mac_world = ''Linux'')
   \<and> commands mac_world [''mount''] = Completed mac_mount_table
   \<and> find (sublist ''/Volumes/Projects'') (splitlines mac_mount_table)
       = Some ''//u@srv/Projects on /Volumes/Projects (smbfs, nodev)''
   \<and> fst (is_network_drive mac_world ''/Volumes/Projects'') = True"
proof -
  have h1: "system mac_world = ''Darwin'' \<or> system mac_world = ''Linux''"
    by (simp add: mac_world_def)
  have h2: "commands mac_world [''mount''] = Completed mac_mount_table"
    by (simp add: mac_world_def)
  have f: "find (sublist ''/Volumes/Projects'') (splitlines mac_mount_table)
       = Some ''//u@srv/Projects on /Volumes/Projects (smbfs, nodev)''"
    by code_simp
  have l: "list_ex (\<lambda>fs. sublist fs ''//u@srv/Projects on /Volumes/Projects (smbfs, nodev)'')
            [''smbfs'', ''nfs'', ''afp'', ''cifs'', ''webdav'']"
    by code_simp
  from network_check_first_matching_line [OF h1 h2, of "''/Volumes/Projects''"] f l
  have "fst (is_network_drive mac_world ''/Volumes/Projects'') = True"
    by (simp only: option.case)
  with h1 h2 f show ?thesis by (simp only: simp_thms)
qed

section \<open>The writability probe\<close>

text \<open>
  C4, as the code has it. The probe works on one marker file, whose name is fixed:
  \<^verbatim>\<open>.write_test\<close> joined onto the directory. It opens the marker for writing, writes
  \<^verbatim>\<open>test\<close>, and removes the marker, stopping at the first of the three that fails. It
  answers true exactly when none fails, and false otherwise; it never touches a
  directory or the environment. After a successful probe the marker is gone; when
  opening fails, the files are as they were.
\<close>

theorem writability_probe:
  assumes "t = path_join w p ''.write_test''"
  shows "fst (is_writable w p) = (t \<notin> open_fails w \<and> t \<notin> write_fails w \<and> t \<notin> remove_fails w)
    \<and> new_calls w (snd (is_writable w p)) =
        (if t \<in> open_fails w then [OpenW t]
         else if t \<in> write_fails w then [OpenW t, WriteClose t ''test'']
         else [OpenW t, WriteClose t ''test'', Remove t])
    \<and> dirs (snd (is_writable w p)) = dirs w
    \<and> environ (snd (is_writable w p)) = environ w
    \<and> (fst (is_writable w p) \<longrightarrow> files (snd (is_writable w p)) = (files w)(t := None))
    \<and> (t \<in> open_fails w \<longrightarrow> files (snd (is_writable w p)) = files w)"
  unfolding assms
  by (auto simp: is_writable_def prim_defs new_calls_def split: prim_splits)

theorem writability_probe_witness:
  "''/Volumes/RAID/AppCache/.write_test'' = path_join mac_world ''/Volumes/RAID/AppCache'' ''.write_test''
   \<and> fst (is_writable mac_world ''/Volumes/RAID/AppCache'')
   \<and> new_calls mac_world (snd (is_writable mac_world ''/Volumes/RAID/AppCache''))
       = [OpenW ''/Volumes/RAID/AppCache/.write_test'',
          WriteClose ''/Volumes/RAID/AppCache/.write_test'' ''test'',
          Remove ''/Volumes/RAID/AppCache/.write_test'']
   \<and> files (snd (is_writable mac_world ''/Volumes/RAID/AppCache'')) = Map.empty
   \<and> ''/Volumes/RAID/AppCache/.write_test'' \<in> open_fails mac_world_read_only
   \<and> \<not> fst (is_writable mac_world_read_only ''/Volumes/RAID/AppCache'')
   \<and> files (snd (is_writable mac_world_read_only ''/Volumes/RAID/AppCache''))
       = files mac_world_read_only"
proof -
  have pj: "posix_join ''/Volumes/RAID/AppCache'' ''.write_test''
            = ''/Volumes/RAID/AppCache/.write_test''"
    by code_simp
  have t: "''/Volumes/RAID/AppCache/.write_test''
           = path_join mac_world ''/Volumes/RAID/AppCache'' ''.write_test''"
    by (simp add: mac_world_def pj)
  have t': "''/Volumes/RAID/AppCache/.write_test''
           = path_join mac_world_read_only ''/Volumes/RAID/AppCache'' ''.write_test''"
    by (simp add: mac_world_read_only_def mac_world_def pj)
  have f: "open_fails mac_world = {}" "write_fails mac_world = {}" "remove_fails mac_world = {}"
    "files mac_world = Map.empty"
    by (simp_all add: mac_world_def)
  have g: "open_fails mac_world_read_only = UNIV"
    by (simp add: mac_world_read_only_def)
  from writability_probe [OF t] writability_probe [OF t'] t f g show ?thesis
    by simp
qed

text \<open>
  C4 as stated fails in two ways. On a full disk the marker is created, the write fails,
  the probe answers false and the empty marker stays behind. And the marker's name is
  not unique: a file of that name that was already there is overwritten and removed by
  a successful probe.
\<close>

theorem writability_probe_counterexample:
  "\<not> fst (is_writable mac_world_disk_full ''/Volumes/RAID/AppCache'')
   \<and> files mac_world_disk_full ''/Volumes/RAID/AppCache/.write_test'' = None
   \<and> files (snd (is_writable mac_world_disk_full ''/Volumes/RAID/AppCache''))
        ''/Volumes/RAID/AppCache/.write_test'' = Some []
   \<and> files mac_world_user_file ''/Volumes/RAID/AppCache/.write_test'' = Some ''render notes''
   \<and> fst (is_writable mac_world_user_file ''/Volumes/RAID/AppCache'')
   \<and> files (snd (is_writable mac_world_user_file ''/Volumes/RAID/AppCache''))
        ''/Volumes/RAID/AppCache/.write_test'' = None"
  by code_simp

section \<open>Network volumes on Windows\<close>

text \<open>
  C2 at a Windows machine whose drive Z is accessible and appears in the output of
  \<^verbatim>\<open>net use\<close>: the network-mount check of the code answers true for the drive, yet the
  Windows finder, which never asks it, selects the cache directory on that drive. The
  selection procedure of the specification under the Windows policy skips the drive and
  falls back to the home directory.
\<close>

theorem windows_finder_ignores_network_mappings:
  "fst (os_path_isdir win_world (''Z:'' @ [CHR 0x5C]))
   \<and> fst (is_network_drive win_world (''Z:'' @ [CHR 0x5C]))
   \<and> fst (find_suitable_cache_path_windows win_world ''NukeCache'' [''Z''])
       = Some (''Z:'' @ [CHR 0x5C] @ ''NukeCache'')
   \<and> fst (select windows_policy win_world ''NukeCache'' [''Z''])
       = Some (''C:'' @ [CHR 0x5C] @ ''Users'' @ [CHR 0x5C] @ ''artist'' @ [CHR 0x5C] @ ''NukeCache'')"
  by code_simp

section \<open>The finders and the selection procedure\<close>

text \<open>
  The macOS and Linux finders are the selection procedure under their policies. The
  Windows finder is the selection procedure under a policy without a network check.
\<close>

lemma macos_refines_select:
  "find_suitable_cache_path_macos w cd vols = select macos_policy w cd vols"
proof (induction vols arbitrary: w)
  case Nil
  show ?case by (simp only: find_suitable_cache_path_macos.simps select.simps)
next
  case (Cons v vs)
  show ?case
    unfolding find_suitable_cache_path_macos.simps select.simps Cons.IH
      macos_policy_def policy.simps Let_def
    by (rule refl)
qed

lemma linux_refines_select:
  "find_suitable_cache_path_linux w cd vols = select linux_policy w cd vols"
proof (induction vols arbitrary: w)
  case Nil
  show ?case by (simp only: find_suitable_cache_path_linux.simps select.simps)
next
  case (Cons v vs)
  show ?case
    unfolding find_suitable_cache_path_linux.simps select.simps Cons.IH
      linux_policy_def policy.simps Let_def
    by (rule refl)
qed

lemma windows_refines_select:
  "find_suitable_cache_path_windows w cd vols = select windows_code_policy w cd vols"
proof (induction vols arbitrary: w)
  case Nil
  show ?case by (simp only: find_suitable_cache_path_windows.simps select.simps)
next
  case (Cons v vs)
  show ?case
    unfolding find_suitable_cache_path_windows.simps select.simps Cons.IH
      windows_code_policy_def policy.simps Let_def prod.case bool.case
    by (rule refl)
qed

section \<open>Runs of the selection procedure\<close>

lemma tame_isMounted: "tame pol \<Longrightarrow> quiet a (snd (isMounted pol a p))"
  by (simp add: tame_def)

lemma tame_isNetworkMounted: "tame pol \<Longrightarrow> quiet a (snd (isNetworkMounted pol a p))"
  by (simp add: tame_def)

lemma tame_root:
  "tame pol \<Longrightarrow> same_platform a b \<Longrightarrow> mountRootFor pol b name = mountRootFor pol a name"
  unfolding tame_def by blast

lemma stableD:
  assumes s: "stable pol w names" and e: "evolves w a" and n: "name \<in> set names"
  shows "fst (isMounted pol a (mountRootFor pol w name))
          = fst (isMounted pol w (mountRootFor pol w name))
        \<and> fst (isNetworkMounted pol a (mountRootFor pol w name))
            = fst (isNetworkMounted pol w (mountRootFor pol w name))"
  using s [unfolded stable_def, rule_format, OF e n] .

lemma stable_Cons:
  assumes s: "stable pol w (name # rest)"
  shows "stable pol w rest"
  unfolding stable_def
proof (intro allI impI)
  fix a n
  assume e: "evolves w a" and n: "n \<in> set rest"
  from n have "n \<in> set (name # rest)" by (rule list.set_intros(2))
  with s e show "fst (isMounted pol a (mountRootFor pol w n))
          = fst (isMounted pol w (mountRootFor pol w n))
        \<and> fst (isNetworkMounted pol a (mountRootFor pol w n))
            = fst (isNetworkMounted pol w (mountRootFor pol w n))"
    by (rule stableD)
qed

lemma suitable_examined:
  "suitable pol w cd name =
     (examined pol w name \<and> fst (ensure_and_writable w (path_join w (mountRootFor pol w name) cd)))"
  unfolding suitable_def examined_def Let_def by (rule conj_assoc [symmetric])

lemma ensure_directory_fst_evolves:
  "evolves w a \<Longrightarrow> fst (ensure_directory a p) = fst (ensure_directory w p)"
  unfolding ensure_directory_fst evolves_def same_platform_def by auto

lemma select_Cons_pairs:
  assumes m: "isMounted pol a (mountRootFor pol a name) = (m, a1)"
    and n: "isNetworkMounted pol a1 (mountRootFor pol a name) = (n, a2)"
    and ok: "ensure_and_writable a2 (path_join a (mountRootFor pol a name) cd) = (ok, a3)"
  shows "select pol a cd (name # rest) =
     (if m then (if n then select pol a2 cd rest
                 else if ok then (Some (path_join a (mountRootFor pol a name) cd), a3)
                 else select pol a3 cd rest)
      else select pol a1 cd rest)"
  apply (subst select.simps)
  apply (simp only: Let_def m prod.case)
  apply (cases m)
   apply (simp_all only: bool.case if_True if_False n prod.case)
  apply (cases n)
   apply (simp_all only: bool.case if_True if_False ok prod.case)
  apply (cases ok)
   apply (simp_all only: bool.case if_True if_False)
  done

lemma quiet_dirs: "quiet a b \<Longrightarrow> dirs b = dirs a"
  by (simp add: quiet_def)

text \<open>
  One round of the loop, seen from the world \<open>w\<close> the run started in: whether the
  candidate is taken is decided by \<open>w\<close> alone.
\<close>

lemma select_step:
  assumes t: "tame pol" and s: "stable pol w names" and mem: "name \<in> set names"
    and e: "evolves w a"
  obtains a' where "evolves a a'"
    and "dirs a' = (if examined pol w name
                       \<and> fst (ensure_directory w (path_join w (mountRootFor pol w name) cd))
                    then insert (path_join w (mountRootFor pol w name) cd) (dirs a)
                    else dirs a)"
    and "\<And>rest. select pol a cd (name # rest) =
           (if suitable pol w cd name
            then (Some (path_join w (mountRootFor pol w name) cd), a')
            else select pol a' cd rest)"
proof -
  let ?r = "mountRootFor pol w name"
  let ?p = "path_join w ?r cd"
  have sp: "same_platform w a" using e by (rule evolves_same_platform)
  have r: "mountRootFor pol a name = ?r" using t sp by (rule tame_root)
  have pj: "path_join a = path_join w" using sp by (simp add: same_platform_def)
  obtain m a1 where m: "isMounted pol a ?r = (m, a1)" by (cases "isMounted pol a ?r")
  obtain n a2 where n: "isNetworkMounted pol a1 ?r = (n, a2)"
    by (cases "isNetworkMounted pol a1 ?r")
  obtain ok a3 where ok: "ensure_and_writable a2 ?p = (ok, a3)"
    by (cases "ensure_and_writable a2 ?p")
  have q1: "quiet a a1" using tame_isMounted [OF t, of a ?r] by (simp only: m snd_conv)
  have q2: "quiet a1 a2" using tame_isNetworkMounted [OF t, of a1 ?r] by (simp only: n snd_conv)
  have q: "quiet a a2" using q1 q2 by (rule quiet_trans)
  have e1: "evolves w a1" using e quiet_evolves [OF q1] by (rule evolves_trans)
  have e2: "evolves w a2" using e quiet_evolves [OF q] by (rule evolves_trans)
  have e23: "evolves a2 a3" using eaw_evolves [of a2 ?p] by (simp only: ok snd_conv)
  have e3: "evolves a a3" using quiet_evolves [OF q] e23 by (rule evolves_trans)
  have mw: "m = fst (isMounted pol w ?r)"
    using stableD [OF s e mem, THEN conjunct1] by (simp only: m fst_conv)
  have nw: "n = fst (isNetworkMounted pol w ?r)"
    using stableD [OF s e1 mem, THEN conjunct2] by (simp only: n fst_conv)
  have okw: "ok = fst (ensure_and_writable w ?p)"
    using eaw_fst_evolves [OF e2, of ?p] by (simp only: ok fst_conv)
  have ex: "examined pol w name = (m \<and> \<not> n)"
    unfolding examined_def Let_def mw nw by (rule refl)
  have su: "suitable pol w cd name = (m \<and> \<not> n \<and> ok)"
    unfolding suitable_def Let_def mw nw okw by (rule refl)
  have d1: "dirs a1 = dirs a" using q1 by (rule quiet_dirs)
  have d2: "dirs a2 = dirs a" using q by (rule quiet_dirs)
  have d3: "dirs a3 = (if fst (ensure_directory w ?p) then insert ?p (dirs a) else dirs a)"
    using eaw_dirs [of a2 ?p] ensure_directory_dirs [of a2 ?p]
      ensure_directory_fst_evolves [OF e2, of ?p]
    by (simp only: ok snd_conv d2)
  have unfold: "\<And>rest. select pol a cd (name # rest) =
     (if m then (if n then select pol a2 cd rest
                 else if ok then (Some ?p, a3)
                 else select pol a3 cd rest)
      else select pol a1 cd rest)"
    using select_Cons_pairs [of pol a name m a1 n a2 cd ok a3] m n ok
    by (simp only: r pj)
  show thesis
  proof (cases m)
    case False
    show thesis
    proof (rule that [of a1])
      show "evolves a a1" using q1 by (rule quiet_evolves)
      show "dirs a1 = (if examined pol w name \<and> fst (ensure_directory w ?p)
                       then insert ?p (dirs a) else dirs a)"
        using False by (simp only: ex d1 simp_thms if_False)
      show "select pol a cd (name # rest) =
             (if suitable pol w cd name then (Some ?p, a1) else select pol a1 cd rest)" for rest
        using False by (simp only: unfold su simp_thms if_False)
    qed
  next
    case True
    note mT = True
    show thesis
    proof (cases n)
      case True
      show thesis
      proof (rule that [of a2])
        show "evolves a a2" using q by (rule quiet_evolves)
        show "dirs a2 = (if examined pol w name \<and> fst (ensure_directory w ?p)
                         then insert ?p (dirs a) else dirs a)"
          using True by (simp only: ex d2 simp_thms if_False)
        show "select pol a cd (name # rest) =
               (if suitable pol w cd name then (Some ?p, a2) else select pol a2 cd rest)" for rest
          using mT True by (simp only: unfold su simp_thms if_True if_False)
      qed
    next
      case False
      show thesis
      proof (rule that [of a3])
        show "evolves a a3" by (rule e3)
        show "dirs a3 = (if examined pol w name \<and> fst (ensure_directory w ?p)
                         then insert ?p (dirs a) else dirs a)"
          using mT False by (simp only: ex d3 simp_thms)
        show "select pol a cd (name # rest) =
               (if suitable pol w cd name then (Some ?p, a3) else select pol a3 cd rest)" for rest
          using mT False by (simp only: unfold su simp_thms if_True if_False)
      qed
    qed
  qed
qed

lemma tame_calm_isMounted: "tame pol \<Longrightarrow> calm a (snd (isMounted pol a p))"
  by (simp add: tame_def)

lemma tame_calm_isNetworkMounted: "tame pol \<Longrightarrow> calm a (snd (isNetworkMounted pol a p))"
  by (simp add: tame_def)

lemma calmI:
  "environ b = environ a \<Longrightarrow> trace b = trace a @ cs \<Longrightarrow> filter is_SetEnv cs = [] \<Longrightarrow> calm a b"
  by (simp add: calm_def new_calls_def)

lemma calmD:
  assumes "calm a b"
  shows "environ b = environ a"
    and "trace b = trace a @ new_calls a b"
    and "filter is_SetEnv (new_calls a b) = []"
proof -
  from assms have p: "prefix (trace a) (trace b)" by (simp add: calm_def)
  then obtain cs where cs: "trace b = trace a @ cs" by (rule prefixE)
  show "trace b = trace a @ new_calls a b" by (simp add: new_calls_def cs)
  from assms show "environ b = environ a" by (simp add: calm_def)
  from assms show "filter is_SetEnv (new_calls a b) = []" by (simp add: calm_def)
qed

lemma calm_refl: "calm a a"
  by (rule calmI [of _ _ "[]"]) simp_all

lemma new_calls_trans:
  assumes "calm a b" and "calm b c"
  shows "new_calls a c = new_calls a b @ new_calls b c"
proof -
  have "trace c = trace a @ new_calls a b @ new_calls b c"
    using calmD(2) [OF assms(1)] calmD(2) [OF assms(2)] by simp
  then show ?thesis by (simp add: new_calls_def [of a c])
qed

lemma calm_trans:
  assumes "calm a b" and "calm b c"
  shows "calm a c"
proof (rule calmI)
  show "environ c = environ a" using calmD(1) [OF assms(1)] calmD(1) [OF assms(2)] by simp
  show "trace c = trace a @ (new_calls a b @ new_calls b c)"
    using calmD(2) [OF assms(1)] calmD(2) [OF assms(2)] by simp
  show "filter is_SetEnv (new_calls a b @ new_calls b c) = []"
    using calmD(3) [OF assms(1)] calmD(3) [OF assms(2)] by simp
qed

lemma ensure_directory_calm: "calm w (snd (ensure_directory w p))"
  by (auto simp: ensure_directory_def prim_defs calm_def new_calls_def is_SetEnv_def
        split: prim_splits)

lemma is_writable_calm: "calm w (snd (is_writable w p))"
  by (auto simp: is_writable_def prim_defs calm_def new_calls_def is_SetEnv_def
        split: prim_splits)

lemma eaw_calm: "calm w (snd (ensure_and_writable w p))"
  using ensure_directory_calm [of w p]
  by (cases "ensure_directory w p")
     (auto simp: ensure_and_writable_def split: bool.splits
           intro: calm_trans is_writable_calm)

lemma home_fallback_calm: "calm w (snd (home_fallback w cd))"
  by (simp add: home_fallback_snd eaw_calm)

lemma eaw_found: "fst (ensure_and_writable w p) \<Longrightarrow> p \<noteq> [] \<and> p \<in> dirs (snd (ensure_and_writable w p))"
  by (simp add: eaw_fst eaw_dirs ensure_directory_dirs ensure_directory_fst)

lemma eaw_dirs_bound: "dirs (snd (ensure_and_writable w p)) \<subseteq> insert p (dirs w)"
  by (simp add: eaw_dirs ensure_directory_dirs subset_insertI)

text \<open>One round of the loop under a tame policy, whatever its answers.\<close>

lemma select_round:
  assumes t: "tame pol"
  obtains a' where "evolves a a'" and "calm a a'"
    and "dirs a' \<subseteq> insert (path_join a (mountRootFor pol a name) cd) (dirs a)"
    and "(select pol a cd (name # rest) = (Some (path_join a (mountRootFor pol a name) cd), a')
            \<and> path_join a (mountRootFor pol a name) cd \<noteq> []
            \<and> path_join a (mountRootFor pol a name) cd \<in> dirs a')
         \<or> select pol a cd (name # rest) = select pol a' cd rest"
proof -
  let ?r = "mountRootFor pol a name"
  let ?p = "path_join a ?r cd"
  obtain m a1 where m: "isMounted pol a ?r = (m, a1)" by (cases "isMounted pol a ?r")
  obtain n a2 where n: "isNetworkMounted pol a1 ?r = (n, a2)"
    by (cases "isNetworkMounted pol a1 ?r")
  obtain ok a3 where ok: "ensure_and_writable a2 ?p = (ok, a3)"
    by (cases "ensure_and_writable a2 ?p")
  have q1: "quiet a a1" using tame_isMounted [OF t, of a ?r] by (simp only: m snd_conv)
  have q2: "quiet a1 a2" using tame_isNetworkMounted [OF t, of a1 ?r] by (simp only: n snd_conv)
  have q: "quiet a a2" using q1 q2 by (rule quiet_trans)
  have c1: "calm a a1" using tame_calm_isMounted [OF t, of a ?r] by (simp only: m snd_conv)
  have c12: "calm a1 a2" using tame_calm_isNetworkMounted [OF t, of a1 ?r] by (simp only: n snd_conv)
  have c2: "calm a a2" using c1 c12 by (rule calm_trans)
  have c23: "calm a2 a3" using eaw_calm [of a2 ?p] by (simp only: ok snd_conv)
  have c3: "calm a a3" using c2 c23 by (rule calm_trans)
  have e23: "evolves a2 a3" using eaw_evolves [of a2 ?p] by (simp only: ok snd_conv)
  have e3: "evolves a a3" using quiet_evolves [OF q] e23 by (rule evolves_trans)
  have d1: "dirs a1 = dirs a" using q1 by (rule quiet_dirs)
  have d2: "dirs a2 = dirs a" using q by (rule quiet_dirs)
  have d3: "dirs a3 \<subseteq> insert ?p (dirs a)"
    using eaw_dirs_bound [of a2 ?p] by (simp only: ok snd_conv d2)
  have found: "ok \<Longrightarrow> ?p \<noteq> [] \<and> ?p \<in> dirs a3"
    using eaw_found [of a2 ?p] by (simp only: ok fst_conv snd_conv simp_thms)
  have unfold: "select pol a cd (name # rest) =
     (if m then (if n then select pol a2 cd rest
                 else if ok then (Some ?p, a3)
                 else select pol a3 cd rest)
      else select pol a1 cd rest)"
    using m n ok by (rule select_Cons_pairs)
  show thesis
  proof (cases m)
    case False
    show thesis
    proof (rule that [of a1])
      show "evolves a a1" using q1 by (rule quiet_evolves)
      show "calm a a1" by (rule c1)
      show "dirs a1 \<subseteq> insert ?p (dirs a)" unfolding d1 by (rule subset_insertI)
      show "(select pol a cd (name # rest) = (Some ?p, a1) \<and> ?p \<noteq> [] \<and> ?p \<in> dirs a1)
            \<or> select pol a cd (name # rest) = select pol a1 cd rest"
        using False by (simp only: unfold if_False simp_thms)
    qed
  next
    case True
    note mT = True
    show thesis
    proof (cases n)
      case True
      show thesis
      proof (rule that [of a2])
        show "evolves a a2" using q by (rule quiet_evolves)
        show "calm a a2" by (rule c2)
        show "dirs a2 \<subseteq> insert ?p (dirs a)" unfolding d2 by (rule subset_insertI)
        show "(select pol a cd (name # rest) = (Some ?p, a2) \<and> ?p \<noteq> [] \<and> ?p \<in> dirs a2)
              \<or> select pol a cd (name # rest) = select pol a2 cd rest"
          using mT True by (simp only: unfold if_True simp_thms)
      qed
    next
      case False
      note nF = False
      show thesis
      proof (rule that [of a3])
        show "evolves a a3" by (rule e3)
        show "calm a a3" by (rule c3)
        show "dirs a3 \<subseteq> insert ?p (dirs a)" by (rule d3)
        show "(select pol a cd (name # rest) = (Some ?p, a3) \<and> ?p \<noteq> [] \<and> ?p \<in> dirs a3)
              \<or> select pol a cd (name # rest) = select pol a3 cd rest"
        proof (cases ok)
          case True
          with found have "?p \<noteq> [] \<and> ?p \<in> dirs a3" by simp
          with mT nF True show ?thesis by (simp only: unfold if_True if_False simp_thms)
        next
          case False
          with mT nF show ?thesis by (simp only: unfold if_True if_False simp_thms)
        qed
      qed
    qed
  qed
qed

lemma select_evolves:
  assumes t: "tame pol"
  shows "evolves a (snd (select pol a cd names)) \<and> calm a (snd (select pol a cd names))"
proof (induction names arbitrary: a)
  case Nil
  show ?case
    unfolding select.simps by (intro conjI home_fallback_evolves home_fallback_calm)
next
  case (Cons name rest)
  obtain a' where e: "evolves a a'" and c: "calm a a'"
    and alt: "(select pol a cd (name # rest) = (Some (path_join a (mountRootFor pol a name) cd), a')
            \<and> path_join a (mountRootFor pol a name) cd \<noteq> []
            \<and> path_join a (mountRootFor pol a name) cd \<in> dirs a')
         \<or> select pol a cd (name # rest) = select pol a' cd rest"
    using select_round [OF t, of a name cd rest] by blast
  from alt show ?case
  proof
    assume "select pol a cd (name # rest) = (Some (path_join a (mountRootFor pol a name) cd), a')
            \<and> path_join a (mountRootFor pol a name) cd \<noteq> []
            \<and> path_join a (mountRootFor pol a name) cd \<in> dirs a'"
    then have "snd (select pol a cd (name # rest)) = a'" by simp
    with e c show ?thesis by (simp only: simp_thms)
  next
    assume eq: "select pol a cd (name # rest) = select pol a' cd rest"
    from Cons.IH [of a'] have "evolves a' (snd (select pol a' cd rest))"
      and "calm a' (snd (select pol a' cd rest))" by simp_all
    with e c have "evolves a (snd (select pol a' cd rest))"
      and "calm a (snd (select pol a' cd rest))"
      by (blast intro: evolves_trans calm_trans)+
    then show ?thesis unfolding eq by (rule conjI)
  qed
qed

lemma select_found:
  assumes t: "tame pol"
  shows "fst (select pol a cd names) = Some p \<Longrightarrow>
         p \<noteq> [] \<and> p \<in> dirs (snd (select pol a cd names))"
proof (induction names arbitrary: a)
  case Nil
  let ?hp = "path_join a (home a) cd"
  from Nil have f: "fst (home_fallback a cd) = Some p" by (simp only: select.simps)
  have ok: "fst (ensure_and_writable a ?hp)"
  proof (rule ccontr)
    assume "\<not> fst (ensure_and_writable a ?hp)"
    with f show False by (simp add: home_fallback_fst)
  qed
  with f have p: "p = ?hp" by (simp add: home_fallback_fst)
  from eaw_found [OF ok] show ?case
    unfolding select.simps home_fallback_snd p .
next
  case (Cons name rest)
  obtain a' where
    alt: "(select pol a cd (name # rest) = (Some (path_join a (mountRootFor pol a name) cd), a')
            \<and> path_join a (mountRootFor pol a name) cd \<noteq> []
            \<and> path_join a (mountRootFor pol a name) cd \<in> dirs a')
         \<or> select pol a cd (name # rest) = select pol a' cd rest"
    using select_round [OF t, of a name cd rest] by blast
  from alt show ?case
  proof
    assume h: "select pol a cd (name # rest) = (Some (path_join a (mountRootFor pol a name) cd), a')
            \<and> path_join a (mountRootFor pol a name) cd \<noteq> []
            \<and> path_join a (mountRootFor pol a name) cd \<in> dirs a'"
    with Cons.prems have "p = path_join a (mountRootFor pol a name) cd" by simp
    with h show ?thesis by simp
  next
    assume eq: "select pol a cd (name # rest) = select pol a' cd rest"
    from Cons.prems have "fst (select pol a' cd rest) = Some p" unfolding eq .
    then have "p \<noteq> [] \<and> p \<in> dirs (snd (select pol a' cd rest))" by (rule Cons.IH)
    then show ?thesis unfolding eq .
  qed
qed


section \<open>The three policies of the code\<close>

lemma calm_log: "\<not> is_SetEnv c \<Longrightarrow> calm w (log c w)"
  by (rule calmI [of _ _ "[c]"]) (simp_all add: log_def)

lemma is_network_drive_calm: "calm w (snd (is_network_drive w p))"
  by (auto simp: is_network_drive_def check_output_def Let_def calm_log calm_refl is_SetEnv_def
        split: proc_result.splits)

lemma os_path_ismount_quiet: "quiet w (snd (os_path_ismount w p))"
  by (simp add: os_path_ismount_def quiet_log)

lemma os_path_ismount_calm: "calm w (snd (os_path_ismount w p))"
  by (simp add: os_path_ismount_def calm_log is_SetEnv_def)

lemma os_path_isdir_quiet: "quiet w (snd (os_path_isdir w p))"
  by (simp add: os_path_isdir_def quiet_log)

lemma os_path_isdir_calm: "calm w (snd (os_path_isdir w p))"
  by (simp add: os_path_isdir_def calm_log is_SetEnv_def)

lemma same_platform_path_join: "same_platform a b \<Longrightarrow> path_join b = path_join a"
  by (simp add: same_platform_def)

lemma tame_macos: "tame macos_policy"
  unfolding tame_def macos_policy_def policy.simps
  by (intro conjI allI impI os_path_ismount_quiet os_path_ismount_calm
        is_network_drive_quiet is_network_drive_calm)
     (simp only: same_platform_path_join)

lemma tame_linux: "tame linux_policy"
  unfolding tame_def linux_policy_def policy.simps
  by (intro conjI allI impI os_path_ismount_quiet os_path_ismount_calm
        is_network_drive_quiet is_network_drive_calm)
     (simp only: same_platform_path_join)

lemma tame_windows_code: "tame windows_code_policy"
  unfolding tame_def windows_code_policy_def policy.simps snd_conv
  by (intro conjI allI impI os_path_isdir_quiet os_path_isdir_calm quiet_refl calm_refl refl)

lemma os_path_ismount_fst_evolves:
  "evolves w a \<Longrightarrow> fst (os_path_ismount a p) = fst (os_path_ismount w p)"
  by (simp add: os_path_ismount_def evolves_def same_platform_def)

lemma is_network_drive_fst_evolves:
  "evolves w a \<Longrightarrow> fst (is_network_drive a p) = fst (is_network_drive w p)"
  by (rule is_network_drive_fst_same) (rule evolves_same_platform)

lemma stable_macos: "stable macos_policy w names"
  unfolding stable_def macos_policy_def policy.simps
  by (intro allI impI conjI os_path_ismount_fst_evolves is_network_drive_fst_evolves)

lemma stable_linux: "stable linux_policy w names"
  unfolding stable_def linux_policy_def policy.simps
  by (intro allI impI conjI os_path_ismount_fst_evolves is_network_drive_fst_evolves)

lemma os_path_isdir_fst_evolves:
  assumes e: "evolves w a" and f: "p \<in> dirs w \<or> p \<in> mkdir_fails w"
  shows "fst (os_path_isdir a p) = fst (os_path_isdir w p)"
proof -
  from e have sub: "dirs w \<subseteq> dirs a" and new: "dirs a - dirs w \<subseteq> {p. p \<noteq> [] \<and> p \<notin> mkdir_fails w}"
    by (simp_all add: evolves_def)
  have "p \<in> dirs a \<longleftrightarrow> p \<in> dirs w"
  proof
    assume "p \<in> dirs a"
    show "p \<in> dirs w"
    proof (rule ccontr)
      assume n: "p \<notin> dirs w"
      with \<open>p \<in> dirs a\<close> new have "p \<notin> mkdir_fails w" by blast
      with f n show False by blast
    qed
  next
    assume "p \<in> dirs w" with sub show "p \<in> dirs a" by blast
  qed
  then show ?thesis by (simp add: os_path_isdir_def)
qed

lemma stable_windows_code:
  assumes "drive_roots_fixed w names"
  shows "stable windows_code_policy w names"
  unfolding stable_def windows_code_policy_def policy.simps fst_conv
proof (intro allI impI conjI refl)
  fix a name
  assume e: "evolves w a" and n: "name \<in> set names"
  from assms n have "name @ [CHR '':'', CHR 0x5C] \<in> dirs w
      \<or> name @ [CHR '':'', CHR 0x5C] \<in> mkdir_fails w"
    by (simp add: drive_roots_fixed_def list_all_iff)
  with e show "fst (os_path_isdir a (name @ [CHR '':'', CHR 0x5C]))
      = fst (os_path_isdir w (name @ [CHR '':'', CHR 0x5C]))"
    by (rule os_path_isdir_fst_evolves)
qed

lemma chosen_Nil: "chosen pol w cd [] = fst (home_fallback w cd)"
  by (simp add: chosen_def home_fallback_fst)

lemma chosen_Cons:
  "chosen pol w cd (name # rest) =
     (if suitable pol w cd name then Some (path_join w (mountRootFor pol w name) cd)
      else chosen pol w cd rest)"
  by (simp add: chosen_def)

text \<open>What a run returns is decided by the world it starts in.\<close>

lemma select_chosen:
  assumes t: "tame pol"
  shows "stable pol w names \<Longrightarrow> evolves w a \<Longrightarrow> fst (select pol a cd names) = chosen pol w cd names"
proof (induction names arbitrary: a)
  case Nil
  show ?case
    unfolding select.simps chosen_Nil using Nil.prems(2) by (rule home_fallback_fst_evolves)
next
  case (Cons name rest)
  have mem: "name \<in> set (name # rest)" by (rule list.set_intros(1))
  obtain a' where e': "evolves a a'"
    and step: "\<And>rest. select pol a cd (name # rest) =
           (if suitable pol w cd name
            then (Some (path_join w (mountRootFor pol w name) cd), a')
            else select pol a' cd rest)"
    by (rule select_step [OF t Cons.prems(1) mem Cons.prems(2), of cd]) (rule that)
  have ew: "evolves w a'" using Cons.prems(2) e' by (rule evolves_trans)
  have st: "stable pol w rest" using Cons.prems(1) by (rule stable_Cons)
  have ih: "fst (select pol a' cd rest) = chosen pol w cd rest" using st ew by (rule Cons.IH)
  show ?case
  proof (cases "suitable pol w cd name")
    case True
    then show ?thesis by (simp only: step chosen_Cons if_True fst_conv)
  next
    case False
    then show ?thesis by (simp only: step chosen_Cons if_False ih)
  qed
qed

text \<open>Names after a suitable one play no part in the run.\<close>

lemma select_take:
  assumes t: "tame pol"
  shows "stable pol w names \<Longrightarrow> evolves w a \<Longrightarrow> i < length names \<Longrightarrow>
         suitable pol w cd (names ! i) \<Longrightarrow>
         select pol a cd names = select pol a cd (take (Suc i) names)"
proof (induction names arbitrary: a i)
  case Nil
  then show ?case by simp
next
  case (Cons name rest)
  have mem: "name \<in> set (name # rest)" by (rule list.set_intros(1))
  obtain a' where e': "evolves a a'"
    and step: "\<And>rest. select pol a cd (name # rest) =
           (if suitable pol w cd name
            then (Some (path_join w (mountRootFor pol w name) cd), a')
            else select pol a' cd rest)"
    by (rule select_step [OF t Cons.prems(1) mem Cons.prems(2), of cd]) (rule that)
  have ew: "evolves w a'" using Cons.prems(2) e' by (rule evolves_trans)
  have st: "stable pol w rest" using Cons.prems(1) by (rule stable_Cons)
  have tk: "take (Suc i) (name # rest) = name # take i rest" by simp
  show ?case
  proof (cases "suitable pol w cd name")
    case True
    then show ?thesis by (simp only: tk step if_True)
  next
    case False
    with Cons.prems(4) have "i \<noteq> 0" by (cases i) auto
    then obtain j where j: "i = Suc j" by (cases i) auto
    from Cons.prems(3) j have jl: "j < length rest" by simp
    from Cons.prems(4) j have js: "suitable pol w cd (rest ! j)" by simp
    have "select pol a' cd rest = select pol a' cd (take (Suc j) rest)"
      using st ew jl js by (rule Cons.IH)
    moreover have "take (Suc (Suc j)) (name # rest) = name # take (Suc j) rest" by simp
    ultimately show ?thesis using False unfolding j by (simp only: step if_False)
  qed
qed

lemma evolves_dirs: "evolves a b \<Longrightarrow> dirs a \<subseteq> dirs b"
  by (simp add: evolves_def)

lemma evolves_between:
  assumes ba: "evolves b a" and bb': "evolves b b'" and sub: "dirs b' \<subseteq> dirs a"
  shows "evolves b' a"
proof -
  have sp: "same_platform b' a"
    using ba bb' by (simp add: evolves_def same_platform_def)
  have mf: "mkdir_fails b' = mkdir_fails b"
    using bb' by (simp add: evolves_def same_platform_def)
  have "dirs a - dirs b' \<subseteq> dirs a - dirs b"
    using evolves_dirs [OF bb'] by blast
  also have "\<dots> \<subseteq> {p. p \<noteq> [] \<and> p \<notin> mkdir_fails b}"
    using ba by (simp add: evolves_def)
  finally have "dirs a - dirs b' \<subseteq> {p. p \<noteq> [] \<and> p \<notin> mkdir_fails b'}"
    unfolding mf .
  with sp sub show ?thesis by (simp add: evolves_def)
qed

text \<open>
  A second run, started where a first run ended (or later), creates no directory.
\<close>

lemma select_rerun_dirs:
  assumes t: "tame pol"
  shows "stable pol w names \<Longrightarrow> evolves w b \<Longrightarrow> evolves b a \<Longrightarrow>
         dirs (snd (select pol b cd names)) \<subseteq> dirs a \<Longrightarrow>
         dirs (snd (select pol a cd names)) = dirs a"
proof (induction names arbitrary: b a)
  case Nil
  let ?hp = "path_join a (home a) cd"
  have sp: "same_platform b a" using Nil.prems(3) by (rule evolves_same_platform)
  have hp: "path_join b (home b) cd = ?hp" using sp by (simp add: same_platform_def)
  have sub: "dirs (snd (ensure_directory b ?hp)) \<subseteq> dirs a"
    using Nil.prems(4) unfolding select.simps home_fallback_snd eaw_dirs hp .
  have fe: "fst (ensure_directory a ?hp) = fst (ensure_directory b ?hp)"
    using Nil.prems(3) by (rule ensure_directory_fst_evolves)
  have "dirs (snd (ensure_directory a ?hp)) = dirs a"
  proof (cases "fst (ensure_directory b ?hp)")
    case True
    with sub have "?hp \<in> dirs a" by (simp add: ensure_directory_dirs)
    then show ?thesis by (simp add: ensure_directory_dirs fe insert_absorb)
  next
    case False
    then show ?thesis by (simp add: ensure_directory_dirs fe)
  qed
  then show ?case unfolding select.simps home_fallback_snd eaw_dirs .
next
  case (Cons name rest)
  let ?p = "path_join w (mountRootFor pol w name) cd"
  let ?c = "examined pol w name \<and> fst (ensure_directory w ?p)"
  have mem: "name \<in> set (name # rest)" by (rule list.set_intros(1))
  have ewa: "evolves w a" using Cons.prems(2,3) by (rule evolves_trans)
  obtain b' where eb: "evolves b b'"
    and db: "dirs b' = (if ?c then insert ?p (dirs b) else dirs b)"
    and sb: "\<And>rest. select pol b cd (name # rest) =
           (if suitable pol w cd name then (Some ?p, b') else select pol b' cd rest)"
    by (rule select_step [OF t Cons.prems(1) mem Cons.prems(2), of cd]) (rule that)
  obtain a' where ea: "evolves a a'"
    and da: "dirs a' = (if ?c then insert ?p (dirs a) else dirs a)"
    and sa: "\<And>rest. select pol a cd (name # rest) =
           (if suitable pol w cd name then (Some ?p, a') else select pol a' cd rest)"
    by (rule select_step [OF t Cons.prems(1) mem ewa, of cd]) (rule that)
  have st: "stable pol w rest" using Cons.prems(1) by (rule stable_Cons)
  have ewb': "evolves w b'" using Cons.prems(2) eb by (rule evolves_trans)
  have fin: "dirs b' \<subseteq> dirs (snd (select pol b cd (name # rest)))"
  proof (cases "suitable pol w cd name")
    case True
    then show ?thesis by (simp only: sb if_True snd_conv subset_refl)
  next
    case False
    have "dirs b' \<subseteq> dirs (snd (select pol b' cd rest))"
      using select_evolves [OF t, of b' cd rest, THEN conjunct1] by (rule evolves_dirs)
    with False show ?thesis by (simp only: sb if_False)
  qed
  then have b'a: "dirs b' \<subseteq> dirs a" using Cons.prems(4) by (rule subset_trans)
  have da': "dirs a' = dirs a"
  proof (cases ?c)
    case True
    with db b'a have "?p \<in> dirs a" by auto
    with True da show ?thesis by (simp add: insert_absorb)
  next
    case False
    with da show ?thesis by simp
  qed
  show ?case
  proof (cases "suitable pol w cd name")
    case True
    then show ?thesis by (simp only: sa if_True snd_conv da')
  next
    case False
    have "evolves b' a" using Cons.prems(3) eb b'a by (rule evolves_between)
    then have e': "evolves b' a'" using ea by (rule evolves_trans)
    have "dirs (snd (select pol b' cd rest)) \<subseteq> dirs a"
      using Cons.prems(4) False by (simp only: sb if_False)
    then have sub': "dirs (snd (select pol b' cd rest)) \<subseteq> dirs a'" unfolding da' .
    have "dirs (snd (select pol a' cd rest)) = dirs a'"
      using st ewb' e' sub' by (rule Cons.IH)
    with False show ?thesis by (simp only: sa if_False da')
  qed
qed

section \<open>The constructor\<close>

lemma init_adopt:
  "code_policy (system w) = Some pol \<Longrightarrow>
   init w pv cd = adopt \<lparr>preferred_volumes = pv, cache_dir = cd, cache_path = None\<rparr>
                    (select pol w cd pv)"
  by (auto simp: code_policy_def init_def handle_os_specific_cache_location_def Let_def
        set_cache_location_macos_def set_cache_location_linux_def
        set_cache_location_windows_def adopt_def macos_refines_select linux_refines_select
        windows_refines_select split: if_splits)

lemma init_skip:
  "code_policy (system w) = None \<Longrightarrow>
   init w pv cd = (\<lparr>preferred_volumes = pv, cache_dir = cd, cache_path = None\<rparr>, w)"
  by (auto simp: code_policy_def init_def handle_os_specific_cache_location_def Let_def
        split: if_splits)

lemma code_policy_tame: "code_policy os = Some pol \<Longrightarrow> tame pol"
  by (auto simp: code_policy_def tame_macos tame_linux tame_windows_code split: if_splits)

lemma code_policy_stable:
  "code_policy (system w) = Some pol \<Longrightarrow> system w = ''Windows'' \<longrightarrow> drive_roots_fixed w names \<Longrightarrow>
   stable pol w names"
  by (auto simp: code_policy_def stable_macos stable_linux stable_windows_code split: if_splits)

lemma adopt_cache_path: "cache_path (fst (adopt self (r, w1))) = r"
  by (simp add: adopt_def Let_def)

lemma adopt_world:
  "snd (adopt self (r, w1)) =
     (case r of
        None \<Rightarrow> w1
      | Some p \<Rightarrow> if p = [] then w1
                  else os_environ_set (os_environ_set w1 ''NUKE_TEMP_DIR'' p) ''NUKE_DISK_CACHE'' p)"
  by (simp add: adopt_def Let_def truthy_def split: option.splits)

section \<open>The environment\<close>

lemma init_cache_path:
  "code_policy (system w) = Some pol \<Longrightarrow>
   cache_path (fst (init w pv cd)) = fst (select pol w cd pv)"
  by (cases "select pol w cd pv") (simp add: init_adopt adopt_cache_path)

lemma init_found:
  assumes c: "code_policy (system w) = Some pol" and f: "fst (select pol w cd pv) = Some p"
  shows "snd (init w pv cd) =
     os_environ_set (os_environ_set (snd (select pol w cd pv)) ''NUKE_TEMP_DIR'' p)
       ''NUKE_DISK_CACHE'' p"
proof -
  have "p \<noteq> []" using select_found [OF code_policy_tame [OF c] f] by (rule conjunct1)
  with f show ?thesis
    by (cases "select pol w cd pv") (simp add: init_adopt [OF c] adopt_world)
qed

lemma init_not_found:
  assumes c: "code_policy (system w) = Some pol" and f: "fst (select pol w cd pv) = None"
  shows "snd (init w pv cd) = snd (select pol w cd pv)"
  using f by (cases "select pol w cd pv") (simp add: init_adopt [OF c] adopt_world)





section \<open>An empty list of preferred volumes\<close>

text \<open>
  C9. With no preferred volume, each finder returns the home-directory fallback path,
  \<^verbatim>\<open>cache_dir\<close> joined onto the home directory, provided that directory can be ensured
  and is writable; on a supported platform that is the constructor's \<open>cache_path\<close>.
\<close>

theorem empty_preferences_use_home:
  assumes "fst (ensure_and_writable w (path_join w (home w) cd))"
  shows "fst (find_suitable_cache_path_macos w cd []) = Some (path_join w (home w) cd)
    \<and> fst (find_suitable_cache_path_linux w cd []) = Some (path_join w (home w) cd)
    \<and> fst (find_suitable_cache_path_windows w cd []) = Some (path_join w (home w) cd)
    \<and> (system w = ''Darwin'' \<or> system w = ''Linux'' \<or> system w = ''Windows''
        \<longrightarrow> cache_path (fst (init w [] cd)) = Some (path_join w (home w) cd))"
proof (intro conjI impI)
  show "fst (find_suitable_cache_path_macos w cd []) = Some (path_join w (home w) cd)"
    using assms by (simp add: home_fallback_fst)
  show "fst (find_suitable_cache_path_linux w cd []) = Some (path_join w (home w) cd)"
    using assms by (simp add: home_fallback_fst)
  show "fst (find_suitable_cache_path_windows w cd []) = Some (path_join w (home w) cd)"
    using assms by (simp add: home_fallback_fst)
  assume "system w = ''Darwin'' \<or> system w = ''Linux'' \<or> system w = ''Windows''"
  then obtain pol where c: "code_policy (system w) = Some pol"
    by (auto simp: code_policy_def)
  show "cache_path (fst (init w [] cd)) = Some (path_join w (home w) cd)"
    using assms by (simp add: init_cache_path [OF c] home_fallback_fst)
qed

theorem empty_preferences_use_home_witness:
  "fst (ensure_and_writable mac_world (path_join mac_world (home mac_world) ''AppCache''))
   \<and> (system mac_world = ''Darwin'' \<or> system mac_world = ''Linux''
        \<or> system mac_world = ''Windows'')
   \<and> cache_path (fst (init mac_world [] ''AppCache'')) = Some ''/Users/artist/AppCache''"
proof -
  have h: "fst (ensure_and_writable mac_world (path_join mac_world (home mac_world) ''AppCache''))"
    by code_simp
  have s: "system mac_world = ''Darwin'' \<or> system mac_world = ''Linux''
        \<or> system mac_world = ''Windows''"
    by (simp add: mac_world_def)
  have pj: "path_join mac_world (home mac_world) ''AppCache'' = ''/Users/artist/AppCache''"
    by code_simp
  from empty_preferences_use_home [OF h] s
  have "cache_path (fst (init mac_world [] ''AppCache''))
        = Some (path_join mac_world (home mac_world) ''AppCache'')"
    by (simp only: simp_thms)
  with h s show ?thesis by (simp only: pj simp_thms)
qed

section \<open>Failure of the mount query\<close>

lemma suitable_macos:
  "suitable macos_policy w cd v =
     (path_join w ''/Volumes'' v \<in> mounts w
      \<and> \<not> fst (is_network_drive w (path_join w ''/Volumes'' v))
      \<and> fst (ensure_and_writable w (path_join w (path_join w ''/Volumes'' v) cd)))"
  by (simp add: suitable_def macos_policy_def os_path_ismount_def Let_def)

lemma suitable_linux:
  "suitable linux_policy w cd v =
     (path_join w ''/mnt'' v \<in> mounts w
      \<and> \<not> fst (is_network_drive w (path_join w ''/mnt'' v))
      \<and> fst (ensure_and_writable w (path_join w (path_join w ''/mnt'' v) cd)))"
  by (simp add: suitable_def linux_policy_def os_path_ismount_def Let_def)

lemma root_macos: "mountRootFor macos_policy w v = path_join w ''/Volumes'' v"
  by (simp add: macos_policy_def)

lemma root_linux: "mountRootFor linux_policy w v = path_join w ''/mnt'' v"
  by (simp add: linux_policy_def)

lemma macos_chosen: "fst (find_suitable_cache_path_macos w cd vols) = chosen macos_policy w cd vols"
  unfolding macos_refines_select using tame_macos stable_macos evolves_refl by (rule select_chosen)

lemma linux_chosen: "fst (find_suitable_cache_path_linux w cd vols) = chosen linux_policy w cd vols"
  unfolding linux_refines_select using tame_linux stable_linux evolves_refl by (rule select_chosen)

text \<open>
  C6. When the command the network-mount check runs (\<^verbatim>\<open>net use\<close> on Windows, \<^verbatim>\<open>mount\<close>
  otherwise) exits with a nonzero status, the check answers false. A mounted candidate
  is then not skipped by the macOS or the Linux finder: it goes on to the directory and
  writability tests, and is returned when they succeed.
\<close>

theorem query_failure_fails_open:
  assumes "commands w (if system w = ''Windows'' then [''net'', ''use''] else [''mount''])
           = CalledProcessError n"
  shows "fst (is_network_drive w volume_path) = False
    \<and> (path_join w ''/Volumes'' v \<in> mounts w
        \<and> fst (ensure_and_writable w (path_join w (path_join w ''/Volumes'' v) cd))
       \<longrightarrow> fst (find_suitable_cache_path_macos w cd (v # rest))
            = Some (path_join w (path_join w ''/Volumes'' v) cd))
    \<and> (path_join w ''/mnt'' v \<in> mounts w
        \<and> fst (ensure_and_writable w (path_join w (path_join w ''/mnt'' v) cd))
       \<longrightarrow> fst (find_suitable_cache_path_linux w cd (v # rest))
            = Some (path_join w (path_join w ''/mnt'' v) cd))"
proof -
  have nd: "\<And>p. fst (is_network_drive w p) = False"
    using assms by (auto simp: is_network_drive_def check_output_def Let_def split: if_splits)
  show ?thesis
  proof (intro conjI impI)
    show "fst (is_network_drive w volume_path) = False" by (rule nd)
  next
    assume "path_join w ''/Volumes'' v \<in> mounts w
        \<and> fst (ensure_and_writable w (path_join w (path_join w ''/Volumes'' v) cd))"
    then have "suitable macos_policy w cd v" by (simp add: suitable_macos nd)
    then show "fst (find_suitable_cache_path_macos w cd (v # rest))
            = Some (path_join w (path_join w ''/Volumes'' v) cd)"
      by (simp only: macos_chosen chosen_Cons root_macos if_True)
  next
    assume "path_join w ''/mnt'' v \<in> mounts w
        \<and> fst (ensure_and_writable w (path_join w (path_join w ''/mnt'' v) cd))"
    then have "suitable linux_policy w cd v" by (simp add: suitable_linux nd)
    then show "fst (find_suitable_cache_path_linux w cd (v # rest))
            = Some (path_join w (path_join w ''/mnt'' v) cd)"
      by (simp only: linux_chosen chosen_Cons root_linux if_True)
  qed
qed

theorem query_failure_fails_open_witness:
  "commands mac_world_mount_broken
     (if system mac_world_mount_broken = ''Windows'' then [''net'', ''use''] else [''mount''])
     = CalledProcessError 1
   \<and> fst (is_network_drive mac_world_mount_broken ''/Volumes/Projects'') = False
   \<and> path_join mac_world_mount_broken ''/Volumes'' ''Projects'' \<in> mounts mac_world_mount_broken
   \<and> fst (ensure_and_writable mac_world_mount_broken ''/Volumes/Projects/AppCache'')
   \<and> fst (find_suitable_cache_path_macos mac_world_mount_broken ''AppCache'' [''Projects'', ''RAID''])
       = Some ''/Volumes/Projects/AppCache''
   \<and> commands linux_world
         (if system linux_world = ''Windows'' then [''net'', ''use''] else [''mount''])
       = CalledProcessError 32
   \<and> path_join linux_world ''/mnt'' ''data'' \<in> mounts linux_world
   \<and> fst (ensure_and_writable linux_world ''/mnt/data/AppCache'')
   \<and> fst (find_suitable_cache_path_linux linux_world ''AppCache'' [''data''])
       = Some ''/mnt/data/AppCache''"
proof -
  have h: "commands mac_world_mount_broken
     (if system mac_world_mount_broken = ''Windows'' then [''net'', ''use''] else [''mount''])
     = CalledProcessError 1"
    by (simp add: mac_world_mount_broken_def mac_world_def)
  have r: "path_join mac_world_mount_broken ''/Volumes'' ''Projects'' = ''/Volumes/Projects''"
    by code_simp
  have c: "path_join mac_world_mount_broken ''/Volumes/Projects'' ''AppCache''
           = ''/Volumes/Projects/AppCache''"
    by code_simp
  have m: "''/Volumes/Projects'' \<in> mounts mac_world_mount_broken"
    by (simp add: mac_world_mount_broken_def mac_world_def)
  have e: "fst (ensure_and_writable mac_world_mount_broken ''/Volumes/Projects/AppCache'')"
    by code_simp
  from query_failure_fails_open [OF h, of "''/Volumes/Projects''" "''Projects''" "''AppCache''" "[''RAID'']"]
    m e
  have A: "fst (is_network_drive mac_world_mount_broken ''/Volumes/Projects'') = False
    \<and> fst (find_suitable_cache_path_macos mac_world_mount_broken ''AppCache'' [''Projects'', ''RAID''])
       = Some ''/Volumes/Projects/AppCache''"
    by (simp only: r c simp_thms)
  have h': "commands linux_world
         (if system linux_world = ''Windows'' then [''net'', ''use''] else [''mount''])
       = CalledProcessError 32"
    by (simp add: linux_world_def mac_world_def)
  have r': "path_join linux_world ''/mnt'' ''data'' = ''/mnt/data''"
    by code_simp
  have c': "path_join linux_world ''/mnt/data'' ''AppCache'' = ''/mnt/data/AppCache''"
    by code_simp
  have m': "''/mnt/data'' \<in> mounts linux_world"
    by (simp add: linux_world_def mac_world_def)
  have e': "fst (ensure_and_writable linux_world ''/mnt/data/AppCache'')"
    by code_simp
  from query_failure_fails_open [OF h', of "''/mnt/data''" "''data''" "''AppCache''" "[]"]
    m' e'
  have B: "fst (find_suitable_cache_path_linux linux_world ''AppCache'' [''data''])
       = Some ''/mnt/data/AppCache''"
    by (simp only: r' c' simp_thms)
  from A B h m e h' m' e' show ?thesis by (simp only: r r' simp_thms)
qed

section \<open>Directories\<close>

lemma os_environ_set_dirs: "dirs (os_environ_set a k v) = dirs a"
  by (simp add: os_environ_set_def log_def)

lemma os_environ_set_evolves: "evolves a (os_environ_set a k v)"
  by (simp add: os_environ_set_def log_def evolves_def same_platform_def)

lemma init_dirs:
  assumes c: "code_policy (system w) = Some pol"
  shows "dirs (snd (init w pv cd)) = dirs (snd (select pol w cd pv))"
proof (cases "fst (select pol w cd pv)")
  case None
  then show ?thesis by (simp add: init_not_found [OF c])
next
  case (Some p)
  then show ?thesis by (simp add: init_found [OF c] os_environ_set_dirs)
qed

lemma init_evolves: "evolves w (snd (init w pv cd))"
proof (cases "code_policy (system w)")
  case None
  then show ?thesis by (simp add: init_skip)
next
  case (Some pol)
  have e: "evolves w (snd (select pol w cd pv))"
    using select_evolves [OF code_policy_tame [OF Some], of w cd pv] by (rule conjunct1)
  show ?thesis
  proof (cases "fst (select pol w cd pv)")
    case None
    with e show ?thesis by (simp add: init_not_found [OF Some])
  next
    case (Some p)
    have "evolves (snd (select pol w cd pv))
            (os_environ_set (os_environ_set (snd (select pol w cd pv)) ''NUKE_TEMP_DIR'' p)
               ''NUKE_DISK_CACHE'' p)"
      by (rule evolves_trans [OF os_environ_set_evolves os_environ_set_evolves])
    with e show ?thesis
      unfolding init_found [OF \<open>code_policy (system w) = Some pol\<close> Some]
      by (rule evolves_trans)
  qed
qed

lemma ensure_directory_existing:
  "p \<noteq> [] \<Longrightarrow> p \<in> dirs w \<Longrightarrow> ensure_directory w p = (True, log (IsDir p) w)"
  by (simp add: ensure_directory_def os_path_isdir_def)




section \<open>Running the selection twice\<close>

lemma init_same_system: "system (snd (init w pv cd)) = system w"
  using init_evolves [of w pv cd] by (simp add: evolves_def same_platform_def)

text \<open>
  C8. When a run of the constructor found a path, a second run started in the world the
  first one left finds the same path; its ensure-directory step on that path only asks
  \<^verbatim>\<open>isdir\<close> and returns true; and it creates no directory. On Windows this is under
  the premise that a preferred drive root that is not there cannot be created by
  \<open>os_makedirs\<close>.
\<close>

theorem rerun_selects_same_path:
  assumes f: "cache_path (fst (init w pv cd)) = Some p"
    and d: "system w = ''Windows'' \<longrightarrow> drive_roots_fixed w pv"
  shows "cache_path (fst (init (snd (init w pv cd)) pv cd)) = Some p
    \<and> ensure_directory (snd (init w pv cd)) p = (True, log (IsDir p) (snd (init w pv cd)))
    \<and> dirs (snd (init (snd (init w pv cd)) pv cd)) = dirs (snd (init w pv cd))"
proof -
  let ?w1 = "snd (init w pv cd)"
  obtain pol where c: "code_policy (system w) = Some pol"
  proof (cases "code_policy (system w)")
    case None
    with f show ?thesis by (simp add: init_skip)
  next
    case (Some pl)
    then show ?thesis by (rule that)
  qed
  have c1: "code_policy (system ?w1) = Some pol" unfolding init_same_system by (rule c)
  have t: "tame pol" using c by (rule code_policy_tame)
  have st: "stable pol w pv" using c d by (rule code_policy_stable)
  have e: "evolves w ?w1" by (rule init_evolves)
  have sel: "fst (select pol w cd pv) = Some p" using f unfolding init_cache_path [OF c] .
  have ch: "chosen pol w cd pv = Some p"
    using select_chosen [OF t st evolves_refl, of cd] sel by simp
  have 1: "cache_path (fst (init ?w1 pv cd)) = Some p"
    unfolding init_cache_path [OF c1] select_chosen [OF t st e] by (rule ch)
  have fd: "p \<noteq> [] \<and> p \<in> dirs ?w1"
    using select_found [OF t sel] unfolding init_dirs [OF c] .
  then have 2: "ensure_directory ?w1 p = (True, log (IsDir p) ?w1)"
    by (simp add: ensure_directory_existing)
  have sub: "dirs (snd (select pol w cd pv)) \<subseteq> dirs ?w1"
    unfolding init_dirs [OF c] by (rule subset_refl)
  have 3: "dirs (snd (init ?w1 pv cd)) = dirs ?w1"
    unfolding init_dirs [OF c1] using st evolves_refl e sub by (rule select_rerun_dirs [OF t])
  from 1 2 3 show ?thesis by (simp only: simp_thms)
qed

theorem rerun_selects_same_path_witness:
  "cache_path (fst (init mac_world [''FastSSD'', ''Projects'', ''RAID''] ''AppCache''))
     = Some ''/Volumes/RAID/AppCache''
   \<and> system mac_world \<noteq> ''Windows''
   \<and> cache_path (fst (init (snd (init mac_world [''FastSSD'', ''Projects'', ''RAID''] ''AppCache''))
                         [''FastSSD'', ''Projects'', ''RAID''] ''AppCache''))
       = Some ''/Volumes/RAID/AppCache''
   \<and> dirs (snd (init (snd (init mac_world [''FastSSD'', ''Projects'', ''RAID''] ''AppCache''))
                         [''FastSSD'', ''Projects'', ''RAID''] ''AppCache''))
       = dirs (snd (init mac_world [''FastSSD'', ''Projects'', ''RAID''] ''AppCache''))
   \<and> cache_path (fst (init win_world [''Z''] ''NukeCache''))
       = Some (''Z:'' @ [CHR 0x5C] @ ''NukeCache'')
   \<and> drive_roots_fixed win_world [''Z'']
   \<and> cache_path (fst (init (snd (init win_world [''Z''] ''NukeCache'')) [''Z''] ''NukeCache''))
       = Some (''Z:'' @ [CHR 0x5C] @ ''NukeCache'')"
proof -
  have g: "cache_path (fst (init win_world [''Z''] ''NukeCache''))
       = Some (''Z:'' @ [CHR 0x5C] @ ''NukeCache'')"
    by code_simp
  have r: "drive_roots_fixed win_world [''Z'']"
    by code_simp
  then have r': "system win_world = ''Windows'' \<longrightarrow> drive_roots_fixed win_world [''Z'']"
    by simp
  have f: "cache_path (fst (init mac_world [''FastSSD'', ''Projects'', ''RAID''] ''AppCache''))
     = Some ''/Volumes/RAID/AppCache''"
    by code_simp
  have s: "system mac_world \<noteq> ''Windows''"
    by (simp add: mac_world_def)
  then have d: "system mac_world = ''Windows''
      \<longrightarrow> drive_roots_fixed mac_world [''FastSSD'', ''Projects'', ''RAID'']"
    by simp
  from rerun_selects_same_path [OF f d] rerun_selects_same_path [OF g r'] f s g r
  show ?thesis by (simp only: simp_thms)
qed

section \<open>The first suitable candidate\<close>

lemma find_first:
  "i < length xs \<Longrightarrow> P (xs ! i) \<Longrightarrow> \<forall>j<i. \<not> P (xs ! j) \<Longrightarrow> find P xs = Some (xs ! i)"
proof (induction xs arbitrary: i)
  case Nil
  then show ?case by simp
next
  case (Cons x xs)
  show ?case
  proof (cases i)
    case 0
    with Cons.prems show ?thesis by simp
  next
    case (Suc k)
    with Cons.prems have "\<not> P x" by auto
    moreover have "find P xs = Some (xs ! k)"
    proof (rule Cons.IH)
      show "k < length xs" using Cons.prems(1) Suc by simp
      show "P (xs ! k)" using Cons.prems(2) Suc by simp
      show "\<forall>j<k. \<not> P (xs ! j)"
      proof (intro allI impI)
        fix j assume "j < k"
        then have "Suc j < i" using Suc by simp
        with Cons.prems(3) have "\<not> P ((x # xs) ! Suc j)" by blast
        then show "\<not> P (xs ! j)" by simp
      qed
    qed
    ultimately show ?thesis using Suc by simp
  qed
qed






lemma chosen_first:
  assumes "i < length vols" and "suitable pol w cd (vols ! i)"
    and "\<forall>j<i. \<not> suitable pol w cd (vols ! j)"
  shows "chosen pol w cd vols = Some (path_join w (mountRootFor pol w (vols ! i)) cd)"
  using find_first [of i vols "suitable pol w cd", OF assms] by (simp add: chosen_def)




text \<open>The Linux finder does the same under \<^verbatim>\<open>/mnt\<close>.\<close>

lemma linux_first_suitable:
  assumes "i < length vols" and "suitable linux_policy w cd (vols ! i)"
    and "\<forall>j<i. \<not> suitable linux_policy w cd (vols ! j)"
  shows "fst (find_suitable_cache_path_linux w cd vols)
           = Some (path_join w (path_join w ''/mnt'' (vols ! i)) cd)
    \<and> find_suitable_cache_path_linux w cd vols
        = find_suitable_cache_path_linux w cd (take (Suc i) vols)"
proof
  show "fst (find_suitable_cache_path_linux w cd vols)
           = Some (path_join w (path_join w ''/mnt'' (vols ! i)) cd)"
    unfolding linux_chosen chosen_first [OF assms] root_linux by (rule refl)
  show "find_suitable_cache_path_linux w cd vols
        = find_suitable_cache_path_linux w cd (take (Suc i) vols)"
    unfolding linux_refines_select
    using stable_linux evolves_refl assms(1,2) by (rule select_take [OF tame_linux])
qed

section \<open>Network volumes on macOS and Linux\<close>

lemma chosen_sound:
  assumes "chosen pol w cd vols = Some p"
  shows "(\<exists>v \<in> set vols. suitable pol w cd v \<and> p = path_join w (mountRootFor pol w v) cd)
         \<or> (p = path_join w (home w) cd \<and> fst (ensure_and_writable w (path_join w (home w) cd)))"
proof (cases "find (suitable pol w cd) vols")
  case None
  with assms show ?thesis by (simp add: chosen_def split: if_splits)
next
  case (Some v)
  then have "v \<in> set vols \<and> suitable pol w cd v"
    by (auto simp: find_Some_iff)
  with assms Some show ?thesis by (auto simp: chosen_def)
qed

text \<open>
  On macOS and on Linux the network-mount check is honoured: whatever the finder
  returns is the cache path of a candidate for which the check answered false, or the
  home fallback path.
\<close>

lemma macos_selected_is_local:
  assumes "fst (find_suitable_cache_path_macos w cd vols) = Some p"
  shows "(\<exists>v \<in> set vols. \<not> fst (is_network_drive w (path_join w ''/Volumes'' v))
                          \<and> p = path_join w (path_join w ''/Volumes'' v) cd)
         \<or> p = path_join w (home w) cd"
  using chosen_sound [OF assms [unfolded macos_chosen]]
  by (auto simp: suitable_macos root_macos)

lemma linux_selected_is_local:
  assumes "fst (find_suitable_cache_path_linux w cd vols) = Some p"
  shows "(\<exists>v \<in> set vols. \<not> fst (is_network_drive w (path_join w ''/mnt'' v))
                          \<and> p = path_join w (path_join w ''/mnt'' v) cd)
         \<or> p = path_join w (home w) cd"
  using chosen_sound [OF assms [unfolded linux_chosen]]
  by (auto simp: suitable_linux root_linux)

end
